theory Spec2Isabelle
  imports Main "HOL-Library.Word"
begin

unbundle bit_operations_syntax

section \<open>The UTF-8 iterator of main.c\<close>

text \<open>
  The iterator walks a byte buffer. Memory is a function from byte positions to bytes, a
  pointer is a position, and every dereference the C code performs is recorded, in
  order, in a list of the positions read. \<open>const char\<close> values are read as their byte
  (the masks \<open>0xC0\<close> and \<open>0x3F\<close> make the sign of \<open>char\<close> irrelevant).
\<close>

type_synonym memory = "nat \<Rightarrow> 8 word"

record utf8_iterator_t =
  buffer :: nat
  end_ptr :: nat
  codepoint :: "32 word"

text \<open>
  What stops the layout short of a result: a failed \<open>assert\<close>, and an access past the end
  of one of its arrays. The iterator itself has no failing branch.
\<close>

datatype error =
    Assertion_failed
  | Index_out_of_bounds

text \<open>
  The iterator uses two operations of which C and GCC fix no result:
  \<open>__builtin_clz\<close> of 0 (reached with the byte \<open>0xFF\<close>), and a shift of \<open>0xFFFFFFFF\<close> by a
  count outside 0 to 31 (reached only behind that). The compiled code goes on with
  whatever value the target yields, so both values are parameters of the model, and
  what is proved holds for every choice of them.
\<close>

record platform =
  clz_of_zero :: int
  shift_out_of_range :: "int \<Rightarrow> 32 word"

text \<open>
  \<open>__builtin_clz\<close>: the number of leading zero bits of a 32-bit value, counted from
  bit 31 downwards.
\<close>

fun clz_from :: "nat \<Rightarrow> 32 word \<Rightarrow> nat" where
  "clz_from 0 w = 0"
| "clz_from (Suc n) w = (if bit w n then 0 else Suc (clz_from n w))"

definition builtin_clz :: "platform \<Rightarrow> 32 word \<Rightarrow> int" where
  "builtin_clz pf w = (if w = 0 then clz_of_zero pf else int (clz_from 32 w))"

text \<open>\<open>__builtin_clz(~byte << 24)\<close>, with \<open>byte\<close> promoted to a 32-bit integer.\<close>

definition leading_ones_of :: "platform \<Rightarrow> 8 word \<Rightarrow> int" where
  "leading_ones_of pf byte = builtin_clz pf (push_bit 24 (NOT (ucast byte :: 32 word)))"

text \<open>\<open>0xFFFFFFFF << data_bits_in_first_byte\<close>.\<close>

definition shift_all_ones :: "platform \<Rightarrow> int \<Rightarrow> 32 word" where
  "shift_all_ones pf data_bits_in_first_byte =
     (if 0 \<le> data_bits_in_first_byte \<and> data_bits_in_first_byte < 32
      then push_bit (nat data_bits_in_first_byte) 0xFFFFFFFF
      else shift_out_of_range pf data_bits_in_first_byte)"

text \<open>
  The \<open>for\<close> loop over the continuation bytes (lines 55 to 74); the first argument is the
  number of iterations left, \<open>additional_bytes - i\<close>.
\<close>

fun decode_loop :: "memory \<Rightarrow> nat \<Rightarrow> utf8_iterator_t \<Rightarrow> utf8_iterator_t \<times> nat list" where
  "decode_loop mem 0 it = (it, [])"
| "decode_loop mem (Suc n) it =
     (let byte = mem (buffer it) in
      if byte AND 0xC0 = 0x80 then
        (let (it', rs) =
           decode_loop mem n
             (it\<lparr>codepoint := push_bit 6 (codepoint it) OR ucast (byte AND 0x3F),
                 buffer := buffer it + 1\<rparr>)
         in (it', buffer it # rs))
      else (it\<lparr>codepoint := 0xFFFD\<rparr>, [buffer it]))"

text \<open>
  The \<open>while\<close> loop over stray continuation bytes (lines 85 and 86). The condition
  dereferences \<open>it.buffer\<close> first and compares it with \<open>it.end\<close> second, so every
  evaluation of the condition reads the current position.
\<close>

function skip_loop :: "memory \<Rightarrow> utf8_iterator_t \<Rightarrow> utf8_iterator_t \<times> nat list" where
  "skip_loop mem it =
     (if mem (buffer it) AND 0xC0 = 0x80 \<and> buffer it < end_ptr it then
        (let (it', rs) = skip_loop mem (it\<lparr>buffer := buffer it + 1\<rparr>)
         in (it', buffer it # rs))
      else (it, [buffer it]))"
  by pat_completeness auto
termination
  by (relation "measure (\<lambda>(mem, it). end_ptr it - buffer it)") auto

text \<open>
  \<open>utf8_next\<close> (lines 25 to 91): the iterator returned, and the positions read.
\<close>

definition utf8_next :: "platform \<Rightarrow> memory \<Rightarrow> utf8_iterator_t \<Rightarrow> utf8_iterator_t \<times> nat list" where
  "utf8_next pf mem it0 =
     (let it = it0\<lparr>codepoint := 0\<rparr> in
      if buffer it = end_ptr it then (it, [])
      else
        let p = buffer it; byte = mem p in
        if byte = 0 then (it, [p])
        else
          let it = it\<lparr>buffer := buffer it + 1\<rparr>;
              leading_ones = leading_ones_of pf byte
          in
          if leading_ones \<noteq> 1 then
            let data_bits_in_first_byte = 8 - 1 - leading_ones;
                it = it\<lparr>codepoint :=
                         ucast byte AND NOT (shift_all_ones pf data_bits_in_first_byte)\<rparr>;
                additional_bytes = leading_ones - 1
            in
            if int (buffer it) + additional_bytes \<le> int (end_ptr it) then
              (let (it', rs) = decode_loop mem (nat additional_bytes) it
               in (it', p # rs))
            else (it\<lparr>codepoint := 0xFFFD, buffer := end_ptr it\<rparr>, [p])
          else
            (let (it', rs) = skip_loop mem it
             in (it'\<lparr>codepoint := 0xFFFD\<rparr>, p # rs)))"

text \<open>\<open>UINTPTR_MAX\<close> of a 64-bit target: the end bound \<open>utf8_first\<close> uses.\<close>

definition UINTPTR_MAX :: nat where
  "UINTPTR_MAX = 2 ^ 64 - 1"

definition utf8_first :: "platform \<Rightarrow> memory \<Rightarrow> nat \<Rightarrow> utf8_iterator_t \<times> nat list" where
  "utf8_first pf mem text_ptr =
     utf8_next pf mem \<lparr>buffer = text_ptr, end_ptr = UINTPTR_MAX, codepoint = 0\<rparr>"

text \<open>
  The iteration of line 545,
  \<open>for (it = utf8_first(text); it.codepoint != 0; it = utf8_next(it))\<close>,
  collecting the codepoints the loop body sees. The loop need not end for an iterator
  that starts behind its end bound, so not returning is the value \<open>None\<close>.
\<close>

partial_function (option) utf8_iterate ::
    "platform \<Rightarrow> memory \<Rightarrow> utf8_iterator_t \<Rightarrow> 32 word list option" where
  "utf8_iterate pf mem it =
     (if codepoint it = 0 then Some []
      else
        Option.bind (utf8_iterate pf mem (fst (utf8_next pf mem it)))
          (\<lambda>cs. Some (codepoint it # cs)))"

definition utf8_iterate_first :: "platform \<Rightarrow> memory \<Rightarrow> nat \<Rightarrow> 32 word list option" where
  "utf8_iterate_first pf mem text_ptr = utf8_iterate pf mem (fst (utf8_first pf mem text_ptr))"

text \<open>
  The canonical UTF-8 encoding of a scalar value, as the Unicode standard defines it, and
  the scalar values themselves. The repository has no encoder: these two definitions
  state the round-trip property against the decoder above.
\<close>

definition utf8_encode :: "32 word \<Rightarrow> 8 word list" where
  "utf8_encode c =
     (if c < 0x80 then [ucast c]
      else if c < 0x800 then
        [0xC0 OR ucast (drop_bit 6 c), 0x80 OR ucast (c AND 0x3F)]
      else if c < 0x10000 then
        [0xE0 OR ucast (drop_bit 12 c), 0x80 OR ucast (drop_bit 6 c AND 0x3F),
         0x80 OR ucast (c AND 0x3F)]
      else
        [0xF0 OR ucast (drop_bit 18 c), 0x80 OR ucast (drop_bit 12 c AND 0x3F),
         0x80 OR ucast (drop_bit 6 c AND 0x3F), 0x80 OR ucast (c AND 0x3F)])"

definition is_scalar_value :: "32 word \<Rightarrow> bool" where
  "is_scalar_value c \<longleftrightarrow> c \<le> 0x10FFFF \<and> \<not> (0xD800 \<le> c \<and> c \<le> 0xDFFF)"

text \<open>A buffer holding the given bytes from position 0 on, and zero bytes behind them.\<close>

definition mem_of :: "8 word list \<Rightarrow> memory" where
  "mem_of bs = (\<lambda>i. if i < length bs then bs ! i else 0)"

section \<open>Glyph atlas, LCD filter and text layout (the redraw block of main)\<close>

text \<open>
  The collaborators of the layout code are parameters of the model. Floating-point
  values are an abstract type \<open>'f\<close> and each floating-point operation the C code uses is
  a field of \<open>float_ops\<close>, so nothing is assumed about rounding:
  \<open>f_mul_int k x\<close> is the product of the integer \<open>k\<close> and the float \<open>x\<close>,
  \<open>f_add_round x y\<close> is \<open>x + round(y)\<close>, \<open>f_sub_int\<close> and \<open>f_add_int\<close> subtract and add an
  integer, \<open>f_modf\<close> is \<open>modff\<close> (fractional part first, integral part second) and
  \<open>f_to_int16\<close> is the conversion of a float to \<open>int16_t\<close>.
\<close>

record 'f float_ops =
  f_add :: "'f \<Rightarrow> 'f \<Rightarrow> 'f"
  f_mul_int :: "int \<Rightarrow> 'f \<Rightarrow> 'f"
  f_add_round :: "'f \<Rightarrow> 'f \<Rightarrow> 'f"
  f_sub_int :: "'f \<Rightarrow> int \<Rightarrow> 'f"
  f_add_int :: "'f \<Rightarrow> int \<Rightarrow> 'f"
  f_modf :: "'f \<Rightarrow> 'f \<times> 'f"
  f_to_int16 :: "'f \<Rightarrow> 16 word"

text \<open>A bitmap allocated by \<open>calloc\<close>: the byte at each offset.\<close>

type_synonym bitmap = "nat \<Rightarrow> 8 word"

text \<open>
  The functions of stb_truetype the code calls, for the one loaded font.
  \<open>stbtt_MakeGlyphBitmap\<close> takes the bitmap it writes into, the offset of its output
  pointer in that bitmap, then \<open>out_w\<close>, \<open>out_h\<close>, \<open>out_stride\<close>, \<open>scale_x\<close>, \<open>scale_y\<close>
  and the glyph, and returns the bitmap as written.
\<close>

record 'f font_info =
  stbtt_GetFontVMetrics :: "int \<times> int \<times> int"
  stbtt_GetCodepointKernAdvance :: "32 word \<Rightarrow> 32 word \<Rightarrow> int"
  stbtt_FindGlyphIndex :: "32 word \<Rightarrow> int"
  stbtt_GetGlyphBitmapBox :: "int \<Rightarrow> 'f \<Rightarrow> 'f \<Rightarrow> int \<times> int \<times> int \<times> int"
  stbtt_MakeGlyphBitmap :: "bitmap \<Rightarrow> int \<Rightarrow> int \<Rightarrow> int \<Rightarrow> int \<Rightarrow> 'f \<Rightarrow> 'f \<Rightarrow> int \<Rightarrow> bitmap"
  stbtt_GetGlyphHMetrics :: "int \<Rightarrow> int \<times> int"

record int16_rect_t =
  rect_left :: "16 word"
  rect_top :: "16 word"
  rect_right :: "16 word"
  rect_bottom :: "16 word"

record color_t =
  color_r :: "8 word"
  color_g :: "8 word"
  color_b :: "8 word"
  color_a :: "8 word"

record 'f rect_instance_t =
  pos :: int16_rect_t
  inst_tex_coords :: int16_rect_t
  color :: color_t
  subpixel_shift :: 'f

record glyph_atlas_item_t =
  filled :: bool
  tex_coords :: int16_rect_t
  glyph_index :: int
  distance_from_baseline_to_top_px :: int

text \<open>
  The calls whose arguments or number the properties below speak about, logged in the
  order the code makes them: the bounding box query, the rasterization and the texture
  upload (\<open>glTextureSubImage2D\<close> with offset, size and pixels).
\<close>

datatype 'f call =
    Call_GetGlyphBitmapBox int 'f 'f
  | Call_MakeGlyphBitmap int 'f 'f
  | Call_TextureSubImage2D int int int int bitmap

text \<open>
  The variables of \<open>main\<close> the layout loop reads and writes. \<open>rect_buffer\<close> holds the
  entries written so far, so its length is \<open>rect_buffer_filled\<close>.
\<close>

record 'f draw_state =
  glyph_atlas_items :: "glyph_atlas_item_t list"
  rect_buffer :: "'f rect_instance_t list"
  calls :: "'f call list"
  current_x :: 'f
  current_y :: 'f
  prev_codepoint :: "32 word"

text \<open>The drawing parameters fixed before the loop (lines 518 to 536).\<close>

record 'f draw_params =
  font_scale :: 'f
  pos_x :: 'f
  line_height :: 'f
  text_color :: color_t

definition glyph_atlas_width :: "32 word" where
  "glyph_atlas_width = 512"

definition glyph_atlas_height :: "32 word" where
  "glyph_atlas_height = 512"

definition glyph_atlas_capacity :: nat where
  "glyph_atlas_capacity = 127"

definition rect_buffer_capacity :: nat where
  "rect_buffer_capacity = 255"

definition empty_rect :: int16_rect_t where
  "empty_rect = \<lparr>rect_left = 0, rect_top = 0, rect_right = 0, rect_bottom = 0\<rparr>"

definition empty_item :: glyph_atlas_item_t where
  "empty_item = \<lparr>filled = False, tex_coords = empty_rect, glyph_index = 0,
                  distance_from_baseline_to_top_px = 0\<rparr>"

text \<open>\<open>glyph_atlas_item_t glyph_atlas_items[127] = {}\<close> and an empty rectangle buffer.\<close>

definition initial_state :: "'f \<Rightarrow> 'f \<Rightarrow> 'f draw_state" where
  "initial_state x y =
     \<lparr>glyph_atlas_items = replicate glyph_atlas_capacity empty_item, rect_buffer = [],
      calls = [], current_x = x, current_y = y, prev_codepoint = 0\<rparr>"

definition atlas_item_width :: int where
  "atlas_item_width = 32"

definition atlas_item_height :: int where
  "atlas_item_height = 32"

definition horizontal_resolution :: int where
  "horizontal_resolution = 3"

definition bitmap_stride :: int where
  "bitmap_stride = atlas_item_width * horizontal_resolution"

definition bitmap_size :: int where
  "bitmap_size = bitmap_stride * atlas_item_height"

definition horizontal_filter_padding :: int where
  "horizontal_filter_padding = 1"

definition subpixel_positioning_left_padding :: int where
  "subpixel_positioning_left_padding = 1"

definition filter_weights :: "int list" where
  "filter_weights = [0x08, 0x4D, 0x56, 0x4D, 0x08]"

text \<open>
  The kernel loop of lines 638 to 644, with its three assertions. Reading
  \<open>filter_weights\<close> past its five entries would be undefined; the loop never does.
\<close>

function kernel_loop ::
    "bitmap \<Rightarrow> int \<Rightarrow> int \<Rightarrow> int \<Rightarrow> int \<Rightarrow> int \<Rightarrow> nat \<Rightarrow> int \<Rightarrow> error + int" where
  "kernel_loop glyph_bitmap padded_glyph_height_px x_end y kernel_x_end kernel_x
       filter_weight_index sum_acc =
     (if kernel_x \<le> kernel_x_end then
        if \<not> (kernel_x \<ge> 0 \<and> kernel_x < x_end + 1) then Inl Assertion_failed
        else if \<not> (y \<ge> 0 \<and> y < padded_glyph_height_px) then Inl Assertion_failed
        else
          let offset = kernel_x + y * bitmap_stride in
          if \<not> (offset \<ge> 0 \<and> offset < bitmap_size) then Inl Assertion_failed
          else if \<not> filter_weight_index < length filter_weights then Inl Index_out_of_bounds
          else
            kernel_loop glyph_bitmap padded_glyph_height_px x_end y kernel_x_end (kernel_x + 1)
              (filter_weight_index + 1)
              (sum_acc + uint (glyph_bitmap (nat offset)) * filter_weights ! filter_weight_index)
      else Inr sum_acc)"
  by pat_completeness auto
termination
  by (relation "measure (\<lambda>(gb, h, xe, y, ke, kx, i, s). nat (ke + 1 - kx))") auto

text \<open>
  The loop over the destination columns of one row (lines 635 to 651). The accumulator
  is the destination bitmap \<open>atlas_item_bitmap\<close> together with the list of the
  destinations written so far, each as its column \<open>x\<close> and row \<open>y\<close>. \<open>sum\<close> is never
  negative, so C's division is \<open>div\<close>.
\<close>

function column_loop ::
    "bitmap \<Rightarrow> int \<Rightarrow> int \<Rightarrow> int \<Rightarrow> int \<Rightarrow> bitmap \<times> (int \<times> int) list
       \<Rightarrow> error + bitmap \<times> (int \<times> int) list" where
  "column_loop glyph_bitmap padded_glyph_height_px x_end y x acc =
     (if x < x_end then
        let kernel_x_end = (if x = x_end - 1 then x + 1 else x + 2) in
        case kernel_loop glyph_bitmap padded_glyph_height_px x_end y kernel_x_end (x - 2) 0 0 of
          Inl e \<Rightarrow> Inl e
        | Inr sum0 \<Rightarrow>
            let sum_acc = sum0 div 255;
                offset = x + y * bitmap_stride
            in
            if \<not> (offset \<ge> 0 \<and> offset < bitmap_size) then Inl Index_out_of_bounds
            else
              column_loop glyph_bitmap padded_glyph_height_px x_end y (x + 1)
                ((fst acc)(nat offset := (if sum_acc > 255 then 255 else word_of_int sum_acc)),
                 snd acc @ [(x, y)])
      else Inr acc)"
  by pat_completeness auto
termination
  by (relation "measure (\<lambda>(gb, h, xe, y, x, acc). nat (xe - x))") auto

text \<open>The loop over the rows (lines 627 to 652).\<close>

function row_loop ::
    "bitmap \<Rightarrow> int \<Rightarrow> int \<Rightarrow> int \<Rightarrow> bitmap \<times> (int \<times> int) list
       \<Rightarrow> error + bitmap \<times> (int \<times> int) list" where
  "row_loop glyph_bitmap padded_glyph_width_px padded_glyph_height_px y acc =
     (if y < padded_glyph_height_px then
        let x_end = padded_glyph_width_px * horizontal_resolution - 1 in
        case column_loop glyph_bitmap padded_glyph_height_px x_end y 4 acc of
          Inl e \<Rightarrow> Inl e
        | Inr acc' \<Rightarrow>
            row_loop glyph_bitmap padded_glyph_width_px padded_glyph_height_px (y + 1) acc'
      else Inr acc)"
  by pat_completeness auto
termination
  by (relation "measure (\<lambda>(gb, w, h, y, acc). nat (h - y))") auto

text \<open>
  The LCD filter: from the rasterized \<open>glyph_bitmap\<close> to the zero-initialised
  \<open>atlas_item_bitmap\<close>, with the destinations written.
\<close>

definition lcd_filter ::
    "bitmap \<Rightarrow> int \<Rightarrow> int \<Rightarrow> error + bitmap \<times> (int \<times> int) list" where
  "lcd_filter glyph_bitmap padded_glyph_width_px padded_glyph_height_px =
     row_loop glyph_bitmap padded_glyph_width_px padded_glyph_height_px 0 (\<lambda>offset. 0, [])"

text \<open>
  The cache miss (lines 571 to 676): query the glyph, rasterize and filter it when it has
  a visual representation, upload the filtered bitmap, and store the finished atlas item
  at the codepoint's index.
\<close>

definition rasterize_glyph ::
    "'f float_ops \<Rightarrow> 'f font_info \<Rightarrow> 'f \<Rightarrow> 32 word \<Rightarrow> 'f draw_state
       \<Rightarrow> error + glyph_atlas_item_t \<times> 'f draw_state" where
  "rasterize_glyph ops font scale cp s0 =
     (let glyph_index' = stbtt_FindGlyphIndex font cp;
          (x0, y0, x1, y1) = stbtt_GetGlyphBitmapBox font glyph_index' scale scale;
          s = s0\<lparr>calls := calls s0 @ [Call_GetGlyphBitmapBox glyph_index' scale scale]\<rparr>;
          glyph_width_px = x1 - x0;
          glyph_height_px = y1 - y0;
          distance_from_baseline_to_top_px' = - y0
      in
      case
        (if glyph_width_px > 0 \<and> glyph_height_px > 0 then
           let padded_glyph_width_px =
                 subpixel_positioning_left_padding + horizontal_filter_padding + glyph_width_px
                   + horizontal_filter_padding;
               padded_glyph_height_px = glyph_height_px;
               atlas_item_x =
                 sint ((cp mod (glyph_atlas_width div word_of_int atlas_item_width))
                         * word_of_int atlas_item_width);
               atlas_item_y =
                 sint ((cp div (glyph_atlas_height div word_of_int atlas_item_height))
                         * word_of_int atlas_item_height)
           in
           if \<not> (padded_glyph_width_px \<le> atlas_item_width
                 \<and> padded_glyph_height_px \<le> atlas_item_height)
           then Inl Assertion_failed
           else
             let glyph_offset_x =
                   (subpixel_positioning_left_padding + horizontal_filter_padding)
                     * horizontal_resolution;
                 scale_x = f_mul_int ops horizontal_resolution scale;
                 glyph_bitmap =
                   stbtt_MakeGlyphBitmap font (\<lambda>offset. 0) glyph_offset_x
                     (atlas_item_width * horizontal_resolution) atlas_item_height bitmap_stride
                     scale_x scale glyph_index';
                 s = s\<lparr>calls := calls s @ [Call_MakeGlyphBitmap glyph_index' scale_x scale]\<rparr>
             in
             case lcd_filter glyph_bitmap padded_glyph_width_px padded_glyph_height_px of
               Inl e \<Rightarrow> Inl e
             | Inr (atlas_item_bitmap, written) \<Rightarrow>
                 Inr (\<lparr>rect_left = word_of_int atlas_item_x,
                       rect_top = word_of_int atlas_item_y,
                       rect_right = word_of_int (atlas_item_x + padded_glyph_width_px),
                       rect_bottom = word_of_int (atlas_item_y + padded_glyph_height_px)\<rparr>,
                      s\<lparr>calls := calls s @
                          [Call_TextureSubImage2D atlas_item_x atlas_item_y atlas_item_width
                             atlas_item_height atlas_item_bitmap]\<rparr>)
         else
           Inr (\<lparr>rect_left = - 1, rect_top = - 1, rect_right = - 1, rect_bottom = - 1\<rparr>, s))
      of
        Inl e \<Rightarrow> Inl e
      | Inr (tc, s) \<Rightarrow>
          let glyph_atlas_item =
                \<lparr>filled = True, tex_coords = tc, glyph_index = glyph_index',
                 distance_from_baseline_to_top_px = distance_from_baseline_to_top_px'\<rparr>
          in
          if \<not> unat cp < length (glyph_atlas_items s) then Inl Index_out_of_bounds
          else
            Inr (glyph_atlas_item,
                 s\<lparr>glyph_atlas_items := (glyph_atlas_items s)[unat cp := glyph_atlas_item]\<rparr>))"

text \<open>
  Lines 560 to 677: the assertion on the codepoint, the read of the table entry (past
  the end of the table the read is undefined), and the hit or the miss.
\<close>

definition atlas_item_for ::
    "'f float_ops \<Rightarrow> 'f font_info \<Rightarrow> 'f \<Rightarrow> 32 word \<Rightarrow> 'f draw_state
       \<Rightarrow> error + glyph_atlas_item_t \<times> 'f draw_state" where
  "atlas_item_for ops font scale cp s =
     (if \<not> cp \<le> 127 then Inl Assertion_failed
      else if \<not> unat cp < length (glyph_atlas_items s) then Inl Index_out_of_bounds
      else
        let glyph_atlas_item = glyph_atlas_items s ! unat cp in
        if filled glyph_atlas_item then Inr (glyph_atlas_item, s)
        else rasterize_glyph ops font scale cp s)"

text \<open>Lines 549 to 551: the kerning adjustment and the update of \<open>prev_codepoint\<close>.\<close>

definition apply_kerning ::
    "'f float_ops \<Rightarrow> 'f font_info \<Rightarrow> 'f draw_params \<Rightarrow> 32 word \<Rightarrow> 'f draw_state
       \<Rightarrow> 'f draw_state" where
  "apply_kerning ops font P cp s0 =
     (let s =
            (if prev_codepoint s0 \<noteq> 0 then
               s0\<lparr>current_x :=
                    f_add ops (current_x s0)
                      (f_mul_int ops
                         (stbtt_GetCodepointKernAdvance font (prev_codepoint s0) cp)
                         (font_scale P))\<rparr>
             else s0)
      in s\<lparr>prev_codepoint := cp\<rparr>)"

text \<open>Lines 684 to 699: the rectangle of a visible glyph.\<close>

definition glyph_rect ::
    "'f float_ops \<Rightarrow> 'f draw_params \<Rightarrow> glyph_atlas_item_t \<Rightarrow> int \<Rightarrow> 'f draw_state
       \<Rightarrow> 'f rect_instance_t" where
  "glyph_rect ops P glyph_atlas_item glyph_left_side_bearing s =
     (let glyph_pos_x =
            f_add ops (current_x s) (f_mul_int ops glyph_left_side_bearing (font_scale P));
          (glyph_pos_x_subpixel_shift, glyph_pos_x_px) = f_modf ops glyph_pos_x;
          glyph_pos_y_px =
            f_sub_int ops (current_y s) (distance_from_baseline_to_top_px glyph_atlas_item);
          glyph_width_with_horiz_filter_padding =
            sint (rect_right (tex_coords glyph_atlas_item))
              - sint (rect_left (tex_coords glyph_atlas_item));
          glyph_height =
            sint (rect_bottom (tex_coords glyph_atlas_item))
              - sint (rect_top (tex_coords glyph_atlas_item));
          padding = subpixel_positioning_left_padding + horizontal_filter_padding
      in
      \<lparr>pos =
         \<lparr>rect_left = f_to_int16 ops (f_sub_int ops glyph_pos_x_px padding),
          rect_top = f_to_int16 ops glyph_pos_y_px,
          rect_right =
            f_to_int16 ops
              (f_add_int ops (f_sub_int ops glyph_pos_x_px padding)
                 glyph_width_with_horiz_filter_padding),
          rect_bottom = f_to_int16 ops (f_add_int ops glyph_pos_y_px glyph_height)\<rparr>,
       inst_tex_coords = tex_coords glyph_atlas_item,
       color = text_color P,
       subpixel_shift = glyph_pos_x_subpixel_shift\<rparr>)"

text \<open>
  The body of the layout loop (lines 546 to 703) for one codepoint. Writing
  \<open>rect_buffer\<close> past its 255 entries is undefined.
\<close>

definition layout_step ::
    "'f float_ops \<Rightarrow> 'f font_info \<Rightarrow> 'f draw_params \<Rightarrow> 32 word \<Rightarrow> 'f draw_state
       \<Rightarrow> error + 'f draw_state" where
  "layout_step ops font P cp s0 =
     (let s = apply_kerning ops font P cp s0 in
      if cp = 0x0A then
        Inr (s\<lparr>current_x := pos_x P,
               current_y := f_add_round ops (current_y s) (line_height P)\<rparr>)
      else
        case atlas_item_for ops font (font_scale P) cp s of
          Inl e \<Rightarrow> Inl e
        | Inr (glyph_atlas_item, s) \<Rightarrow>
            let (glyph_advance_width, glyph_left_side_bearing) =
                  stbtt_GetGlyphHMetrics font (glyph_index glyph_atlas_item)
            in
            case
              (if sint (rect_left (tex_coords glyph_atlas_item)) \<noteq> - 1 then
                 if \<not> length (rect_buffer s) < rect_buffer_capacity
                 then Inl Index_out_of_bounds
                 else
                   Inr (s\<lparr>rect_buffer := rect_buffer s @
                           [glyph_rect ops P glyph_atlas_item glyph_left_side_bearing s]\<rparr>)
               else Inr s)
            of
              Inl e \<Rightarrow> Inl e
            | Inr s \<Rightarrow>
                Inr (s\<lparr>current_x :=
                        f_add ops (current_x s)
                          (f_mul_int ops glyph_advance_width (font_scale P))\<rparr>))"

text \<open>The layout loop of line 545 over the codepoints of the text.\<close>

partial_function (option) layout_loop ::
    "platform \<Rightarrow> 'f float_ops \<Rightarrow> 'f font_info \<Rightarrow> 'f draw_params \<Rightarrow> memory \<Rightarrow> utf8_iterator_t
       \<Rightarrow> 'f draw_state \<Rightarrow> (error + 'f draw_state) option" where
  "layout_loop pf ops font P mem it s =
     (if codepoint it = 0 then Some (Inr s)
      else
        case layout_step ops font P (codepoint it) s of
          Inl e \<Rightarrow> Some (Inl e)
        | Inr s' \<Rightarrow> layout_loop pf ops font P mem (fst (utf8_next pf mem it)) s')"

text \<open>
  Lines 531 to 705 for a given font scale: the metrics, the start of the pen and the loop.
\<close>

definition layout_text ::
    "platform \<Rightarrow> 'f float_ops \<Rightarrow> 'f font_info \<Rightarrow> 'f \<Rightarrow> 'f \<Rightarrow> 'f \<Rightarrow> color_t \<Rightarrow> memory \<Rightarrow> nat
       \<Rightarrow> 'f draw_state \<Rightarrow> (error + 'f draw_state) option" where
  "layout_text pf ops font scale px py col mem text_ptr s0 =
     (let (font_ascent, font_descent, font_line_gap) = stbtt_GetFontVMetrics font;
          P = \<lparr>font_scale = scale, pos_x = px,
               line_height =
                 f_mul_int ops (font_ascent - font_descent + font_line_gap) scale,
               text_color = col\<rparr>;
          baseline = f_mul_int ops font_ascent scale;
          s = s0\<lparr>current_x := px, current_y := f_add_round ops py baseline,
                 prev_codepoint := 0\<rparr>
      in layout_loop pf ops font P mem (fst (utf8_first pf mem text_ptr)) s)"

text \<open>
  The value the filter gives a destination column \<open>x\<close> of row \<open>y\<close>: the source columns
  \<open>x - 2\<close> to \<open>x + 2\<close> (to \<open>x + 1\<close> for the last column processed) weighted by
  \<open>filter_weights\<close>, the sum divided by 255 and saturated at 255.
\<close>

definition filter_tap_sum :: "bitmap \<Rightarrow> int \<Rightarrow> int \<Rightarrow> int \<Rightarrow> int" where
  "filter_tap_sum glyph_bitmap x_end x y =
     (\<Sum>i \<leftarrow> [0..<(if x = x_end - 1 then 4 else 5)].
        uint (glyph_bitmap (nat (x - 2 + int i + y * bitmap_stride))) * filter_weights ! i)"

definition filtered_value :: "bitmap \<Rightarrow> int \<Rightarrow> int \<Rightarrow> int \<Rightarrow> 8 word" where
  "filtered_value glyph_bitmap x_end x y =
     (if filter_tap_sum glyph_bitmap x_end x y div 255 > 255 then 255
      else word_of_int (filter_tap_sum glyph_bitmap x_end x y div 255))"

text \<open>The tex_coords of a glyph without visual representation (lines 666 to 669).\<close>

definition sentinel_rect :: int16_rect_t where
  "sentinel_rect = \<lparr>rect_left = - 1, rect_top = - 1, rect_right = - 1, rect_bottom = - 1\<rparr>"

text \<open>
  The atlas item the cache miss stores for a codepoint, as a function of the font and
  the font scale, and the states of the table in which every filled entry is that item.
  The table starts in such a state and the layout keeps it there.
\<close>

definition stored_item :: "'f font_info \<Rightarrow> 'f \<Rightarrow> 32 word \<Rightarrow> glyph_atlas_item_t" where
  "stored_item font scale cp =
     (let g = stbtt_FindGlyphIndex font cp;
          (x0, y0, x1, y1) = stbtt_GetGlyphBitmapBox font g scale scale;
          atlas_item_x = sint ((cp mod 16) * 32);
          atlas_item_y = sint ((cp div 16) * 32)
      in
      \<lparr>filled = True,
       tex_coords =
         (if x1 - x0 > 0 \<and> y1 - y0 > 0 then
            \<lparr>rect_left = word_of_int atlas_item_x, rect_top = word_of_int atlas_item_y,
             rect_right = word_of_int (atlas_item_x + (1 + 1 + (x1 - x0) + 1)),
             rect_bottom = word_of_int (atlas_item_y + (y1 - y0))\<rparr>
          else sentinel_rect),
       glyph_index = g,
       distance_from_baseline_to_top_px = - y0\<rparr>)"

definition atlas_consistent :: "'f font_info \<Rightarrow> 'f \<Rightarrow> 'f draw_state \<Rightarrow> bool" where
  "atlas_consistent font scale s \<longleftrightarrow>
     length (glyph_atlas_items s) = glyph_atlas_capacity
     \<and> (\<forall>i < length (glyph_atlas_items s).
           filled (glyph_atlas_items s ! i) \<longrightarrow>
             glyph_atlas_items s ! i = stored_item font scale (word_of_nat i))"

text \<open>
  A small concrete font and an exact arithmetic on integers in place of floats, for
  evaluating the definitions on examples.
\<close>

definition demo_ops :: "int float_ops" where
  "demo_ops =
     \<lparr>f_add = (+), f_mul_int = (*), f_add_round = (+), f_sub_int = (-), f_add_int = (+),
      f_modf = (\<lambda>x. (0, x)), f_to_int16 = word_of_int\<rparr>"

definition demo_font :: "int font_info" where
  "demo_font =
     \<lparr>stbtt_GetFontVMetrics = (12, - 3, 1),
      stbtt_GetCodepointKernAdvance = (\<lambda>a b. if a = 0x41 \<and> b = 0x56 then - 1 else 0),
      stbtt_FindGlyphIndex = (\<lambda>c. uint c),
      stbtt_GetGlyphBitmapBox =
        (\<lambda>g sx sy. if g = 0x20 then (0, 0, 0, 0) else (0, - sy, sx, 0)),
      stbtt_MakeGlyphBitmap =
        (\<lambda>bm off w h stride sx sy g. (\<lambda>i. if i = nat off then 255 else bm i)),
      stbtt_GetGlyphHMetrics = (\<lambda>g. (7, 1))\<rparr>"

text \<open>
  A target for evaluating the iterator on examples: the x86 instruction \<open>lzcnt\<close> gives 32
  for the operand 0, and \<open>shl\<close> takes the count of a 32-bit shift modulo 32.
\<close>

definition demo_platform :: platform where
  "demo_platform =
     \<lparr>clz_of_zero = 32, shift_out_of_range = (\<lambda>d. push_bit (nat (d mod 32)) 0xFFFFFFFF)\<rparr>"

text \<open>A font all of whose glyphs are empty, as the glyph of a control character is.\<close>

definition blank_font :: "int font_info" where
  "blank_font =
     \<lparr>stbtt_GetFontVMetrics = (12, - 3, 1),
      stbtt_GetCodepointKernAdvance = (\<lambda>a b. 0),
      stbtt_FindGlyphIndex = (\<lambda>c. uint c),
      stbtt_GetGlyphBitmapBox = (\<lambda>g sx sy. (0, 0, 0, 0)),
      stbtt_MakeGlyphBitmap = (\<lambda>bm off w h stride sx sy g. bm),
      stbtt_GetGlyphHMetrics = (\<lambda>g. (7, 1))\<rparr>"

definition demo_params :: "int draw_params" where
  "demo_params =
     \<lparr>font_scale = 1, pos_x = 10, line_height = 16,
      text_color = \<lparr>color_r = 218, color_g = 218, color_b = 218, color_a = 255\<rparr>\<rparr>"

section \<open>Properties of the UTF-8 iterator\<close>

declare skip_loop.simps [simp del]
declare kernel_loop.simps [simp del]
declare column_loop.simps [simp del]
declare row_loop.simps [simp del]
declare utf8_iterate.simps [code]
declare layout_loop.simps [code]

subsection \<open>Leading one bits of a byte\<close>

lemma clz_from_numeral:
  "clz_from (numeral k) w = (if bit w (pred_numeral k) then 0 else Suc (clz_from (pred_numeral k) w))"
  by (simp add: numeral_eq_Suc)

lemma bit_lead_word:
  "bit (push_bit 24 (NOT (ucast (b :: 8 word) :: 32 word))) n \<longleftrightarrow> 24 \<le> n \<and> n < 32 \<and> \<not> bit b (n - 24)"
  by (auto simp: bit_simps)

lemma lead_word_zero:
  "push_bit 24 (NOT (ucast (b :: 8 word) :: 32 word)) = 0 \<longleftrightarrow> b = 0xFF"
proof
  assume z: "push_bit 24 (NOT (ucast b :: 32 word)) = 0"
  have "bit b k" if "k < 8" for k
  proof -
    have "\<not> bit (push_bit 24 (NOT (ucast b :: 32 word))) (k + 24)" using z by simp
    then show ?thesis using that by (simp add: bit_lead_word)
  qed
  then have "b = -1" by (auto simp: bit_eq_iff bit_simps)
  then show "b = 0xFF" by simp
next
  assume "b = 0xFF"
  then show "push_bit 24 (NOT (ucast b :: 32 word)) = 0" by simp
qed

lemma leading_ones_of_bits:
  "leading_ones_of pf b =
     (if \<not> bit b 7 then 0 else if \<not> bit b 6 then 1 else if \<not> bit b 5 then 2
      else if \<not> bit b 4 then 3 else if \<not> bit b 3 then 4 else if \<not> bit b 2 then 5
      else if \<not> bit b 1 then 6 else if \<not> bit b 0 then 7 else clz_of_zero pf)"
proof (cases "b = 0xFF")
  case True
  then show ?thesis by (simp add: leading_ones_of_def builtin_clz_def)
next
  case False
  have nz: "push_bit 24 (NOT (ucast b :: 32 word)) \<noteq> 0" using False by (simp add: lead_word_zero)
  have "\<not> (bit b 7 \<and> bit b 6 \<and> bit b 5 \<and> bit b 4 \<and> bit b 3 \<and> bit b 2 \<and> bit b 1 \<and> bit b 0)"
  proof
    assume a: "bit b 7 \<and> bit b 6 \<and> bit b 5 \<and> bit b 4 \<and> bit b 3 \<and> bit b 2 \<and> bit b 1 \<and> bit b 0"
    have "bit b k" if "k < 8" for k
    proof -
      from that have "k = 0 \<or> k = 1 \<or> k = 2 \<or> k = 3 \<or> k = 4 \<or> k = 5 \<or> k = 6 \<or> k = 7" by arith
      then show ?thesis using a by auto
    qed
    then have "b = -1" by (auto simp: bit_eq_iff bit_simps)
    then show False using False by simp
  qed
  then show ?thesis
    unfolding leading_ones_of_def builtin_clz_def
    apply (simp add: nz clz_from_numeral bit_lead_word split del: if_split cong: if_cong)
    apply (cases "bit b 7"; cases "bit b 6"; cases "bit b 5"; cases "bit b 4"; cases "bit b 3";
           cases "bit b 2"; cases "bit b (Suc 0)"; cases "bit b 0"; simp)
    done
qed


subsection \<open>Progress of one decoding step\<close>

lemma decode_loop_bounds:
  "decode_loop mem n it = (it', rs) \<Longrightarrow>
     buffer it \<le> buffer it' \<and> buffer it' \<le> buffer it + n \<and> end_ptr it' = end_ptr it"
proof (induction n arbitrary: it it' rs)
  case 0
  then show ?case by simp
next
  case (Suc n)
  show ?case
  proof (cases "mem (buffer it) AND 0xC0 = 0x80")
    case True
    obtain it2 rs2 where r: "decode_loop mem n
             (it\<lparr>codepoint := push_bit 6 (codepoint it) OR ucast (mem (buffer it) AND 0x3F),
                 buffer := buffer it + 1\<rparr>) = (it2, rs2)"
      by (cases "decode_loop mem n
             (it\<lparr>codepoint := push_bit 6 (codepoint it) OR ucast (mem (buffer it) AND 0x3F),
                 buffer := buffer it + 1\<rparr>)") auto
    from Suc.prems True r have "it' = it2" by (simp add: Let_def)
    with Suc.IH [OF r] show ?thesis by simp
  next
    case False
    with Suc.prems show ?thesis by (auto simp: Let_def)
  qed
qed

lemma skip_loop_bounds:
  "skip_loop mem it = (it', rs) \<Longrightarrow>
     buffer it \<le> buffer it' \<and> (buffer it \<le> end_ptr it \<longrightarrow> buffer it' \<le> end_ptr it)
     \<and> end_ptr it' = end_ptr it"
proof (induction mem it arbitrary: it' rs rule: skip_loop.induct)
  case (1 mem it)
  show ?case
  proof (cases "mem (buffer it) AND 0xC0 = 0x80 \<and> buffer it < end_ptr it")
    case True
    obtain it2 rs2 where r: "skip_loop mem (it\<lparr>buffer := buffer it + 1\<rparr>) = (it2, rs2)"
      by (cases "skip_loop mem (it\<lparr>buffer := buffer it + 1\<rparr>)") auto
    from "1.prems" True r have "it' = it2" by (subst (asm) skip_loop.simps) (simp add: Let_def)
    with "1.IH" [OF True r] True show ?thesis by simp
  next
    case False
    with "1.prems" have "it' = it" by (subst (asm) skip_loop.simps) auto
    then show ?thesis by simp
  qed
qed

lemma utf8_next_progress:
  assumes "utf8_next pf mem it = (it', rs)" and "buffer it \<le> end_ptr it"
  shows "end_ptr it' = end_ptr it \<and> buffer it' \<le> end_ptr it
         \<and> (codepoint it' \<noteq> 0 \<longrightarrow> buffer it < buffer it')"
proof (cases "buffer it = end_ptr it \<or> mem (buffer it) = 0")
  case True
  with assms show ?thesis by (auto simp: utf8_next_def Let_def split: if_splits)
next
  case False
  then have lt: "buffer it < end_ptr it" and nz: "mem (buffer it) \<noteq> 0" using assms(2) by auto
  define lo where "lo = leading_ones_of pf (mem (buffer it))"
  show ?thesis
  proof (cases "lo = 1")
    case True
    with assms(1) False lt show ?thesis
      by (auto simp: utf8_next_def Let_def lo_def split: prod.splits dest!: skip_loop_bounds)
  next
    case ne: False
    show ?thesis
    proof (cases "int (buffer it + 1) + (lo - 1) \<le> int (end_ptr it)")
      case True
      with assms(1) \<open>\<not> (buffer it = end_ptr it \<or> mem (buffer it) = 0)\<close> ne lt show ?thesis
        by (auto simp: utf8_next_def Let_def lo_def split: prod.splits dest!: decode_loop_bounds)
    next
      case False
      with assms(1) \<open>\<not> (buffer it = end_ptr it \<or> mem (buffer it) = 0)\<close> ne lt show ?thesis
        by (auto simp: utf8_next_def Let_def lo_def)
    qed
  qed
qed

lemma utf8_iterate_returns:
  "buffer it \<le> end_ptr it \<Longrightarrow> \<exists>cs. utf8_iterate pf mem it = Some cs"
proof (induction "end_ptr it - buffer it" arbitrary: it rule: less_induct)
  case less
  show ?case
  proof (cases "codepoint it = 0")
    case True
    then show ?thesis by (simp add: utf8_iterate.simps)
  next
    case nz: False
    obtain it' rs where p: "utf8_next pf mem it = (it', rs)" by (cases "utf8_next pf mem it")
    from p less.prems have pr: "end_ptr it' = end_ptr it" "buffer it' \<le> end_ptr it"
      "codepoint it' \<noteq> 0 \<longrightarrow> buffer it < buffer it'"
      using utf8_next_progress [of pf mem it it' rs] by auto
    have "\<exists>cs. utf8_iterate pf mem it' = Some cs"
    proof (cases "codepoint it' = 0")
      case True
      then show ?thesis by (simp add: utf8_iterate.simps)
    next
      case False
      with pr have "end_ptr it' - buffer it' < end_ptr it - buffer it" by auto
      moreover from pr have "buffer it' \<le> end_ptr it'" by simp
      ultimately show ?thesis by (rule less.hyps)
    qed
    then obtain cs where "utf8_iterate pf mem it' = Some cs" ..
    with nz p show ?thesis by (simp add: utf8_iterate.simps [of pf mem it])
  qed
qed

text \<open>
  The byte \<open>0xFF\<close>, for a target whose \<open>__builtin_clz(0)\<close> is 2 or more (31 and 32 on
  x86): the buffer holding enough bytes for the bounds check of line 54, and the next
  byte no continuation byte, the step returns U+FFFD with the cursor one byte on.
\<close>

lemma utf8_next_all_ones_byte:
  assumes "mem p = 0xFF" and "2 \<le> clz_of_zero pf"
    and "int p + clz_of_zero pf \<le> int e"
    and "mem (p + 1) AND 0xC0 \<noteq> 0x80"
  shows "utf8_next pf mem \<lparr>buffer = p, end_ptr = e, codepoint = c0\<rparr>
           = (\<lparr>buffer = p + 1, end_ptr = e, codepoint = 0xFFFD\<rparr>, [p, p + 1])"
proof -
  have lo: "leading_ones_of pf (mem p) = clz_of_zero pf"
    using assms(1) by (simp add: leading_ones_of_def builtin_clz_def)
  obtain n where n: "nat (clz_of_zero pf - 1) = Suc n"
    using assms(2) by (cases "nat (clz_of_zero pf - 1)") auto
  have "p \<noteq> e" using assms(2,3) by auto
  then show ?thesis
    using assms lo n by (simp add: utf8_next_def Let_def)
qed

text \<open>
  On the example target the iteration over the bytes \<open>0x41 0xFF 0x42\<close> and their zero
  terminator goes on behind the byte \<open>0xFF\<close>: it yields U+FFFD for that byte, with the
  cursor one byte on, and then the codepoint of the next byte.
\<close>

lemma utf8_next_all_ones_example:
  "utf8_next demo_platform (mem_of [0x41, 0xFF, 0x42])
      \<lparr>buffer = 1, end_ptr = UINTPTR_MAX, codepoint = 0x41\<rparr>
     = (\<lparr>buffer = 2, end_ptr = UINTPTR_MAX, codepoint = 0xFFFD\<rparr>, [1, 2])"
  using utf8_next_all_ones_byte [of "mem_of [0x41, 0xFF, 0x42]" 1 demo_platform UINTPTR_MAX "0x41"]
  by (simp add: mem_of_def demo_platform_def UINTPTR_MAX_def)

lemma utf8_iterate_all_ones_example:
  "utf8_iterate_first demo_platform (mem_of [0x41, 0xFF, 0x42]) 0 = Some [0x41, 0xFFFD, 0x42]"
proof -
  let ?m = "mem_of [0x41, 0xFF, 0x42]"
  let ?it = "\<lambda>p c. \<lparr>buffer = p, end_ptr = UINTPTR_MAX, codepoint = c\<rparr>"
  have u: "0 < UINTPTR_MAX" "1 < UINTPTR_MAX" "2 < UINTPTR_MAX" "3 < UINTPTR_MAX"
    by (simp_all add: UINTPTR_MAX_def)
  have s0: "utf8_next demo_platform ?m (?it 0 0) = (?it 1 0x41, [0])"
    using u by (simp add: utf8_next_def mem_of_def leading_ones_of_bits shift_all_ones_def Let_def)
  have s1: "utf8_next demo_platform ?m (?it 1 0x41) = (?it 2 0xFFFD, [1, 2])"
    by (rule utf8_next_all_ones_example)
  have s2: "utf8_next demo_platform ?m (?it 2 0xFFFD) = (?it 3 0x42, [2])"
    using u by (simp add: utf8_next_def mem_of_def leading_ones_of_bits shift_all_ones_def Let_def)
  have s3: "utf8_next demo_platform ?m (?it 3 0x42) = (?it 3 0, [3])"
    using u by (simp add: utf8_next_def mem_of_def Let_def)
  have i4: "utf8_iterate demo_platform ?m (?it 3 0) = Some []"
    by (subst utf8_iterate.simps) simp
  have i3: "utf8_iterate demo_platform ?m (?it 3 0x42) = Some [0x42]"
    by (subst utf8_iterate.simps) (use s3 i4 in simp)
  have i2: "utf8_iterate demo_platform ?m (?it 2 0xFFFD) = Some [0xFFFD, 0x42]"
    by (subst utf8_iterate.simps) (use s2 i3 in simp)
  have i1: "utf8_iterate demo_platform ?m (?it 1 0x41) = Some [0x41, 0xFFFD, 0x42]"
    by (subst utf8_iterate.simps) (use s1 i2 in simp)
  show ?thesis
    using s0 i1 by (simp add: utf8_iterate_first_def utf8_first_def)
qed

subsection \<open>Bits of the encoded bytes\<close>

lemma upper_bits_clear:
  fixes c :: "32 word"
  assumes "c < 2 ^ k" "k \<le> n"
  shows "\<not> bit c n"
proof -
  from assms(1) have "c AND mask k = c" by (rule less_mask_eq)
  then have "bit c n = bit (c AND mask k) n" by simp
  also have "\<dots> = (bit c n \<and> n < k)" by (auto simp: bit_simps dest: bit_imp_le_length)
  finally show ?thesis using assms(2) by auto
qed

lemma bit_3F: "bit (0x3F :: int) n \<longleftrightarrow> n < 6"
proof -
  have e: "(0x3F :: int) = mask 6" by (simp add: mask_eq_exp_minus_1)
  show ?thesis unfolding e by (auto simp: bit_simps)
qed

lemma bit_80: "bit (0x80 :: int) n \<longleftrightarrow> n = 7"
proof -
  have e: "(0x80 :: int) = mask 8 AND NOT (mask 7)" by (simp add: mask_eq_exp_minus_1)
  show ?thesis unfolding e by (auto simp: bit_simps)
qed

lemma bit_C0: "bit (0xC0 :: int) n \<longleftrightarrow> n = 6 \<or> n = 7"
proof -
  have e: "(0xC0 :: int) = mask 8 AND NOT (mask 6)" by (simp add: mask_eq_exp_minus_1)
  show ?thesis unfolding e by (auto simp: bit_simps)
qed

lemma bit_E0: "bit (0xE0 :: int) n \<longleftrightarrow> n = 5 \<or> n = 6 \<or> n = 7"
proof -
  have e: "(0xE0 :: int) = mask 8 AND NOT (mask 5)" by (simp add: mask_eq_exp_minus_1)
  show ?thesis unfolding e by (auto simp: bit_simps)
qed

lemma bit_F0: "bit (0xF0 :: int) n \<longleftrightarrow> n = 4 \<or> n = 5 \<or> n = 6 \<or> n = 7"
proof -
  have e: "(0xF0 :: int) = mask 8 AND NOT (mask 4)" by (simp add: mask_eq_exp_minus_1)
  show ?thesis unfolding e by (auto simp: bit_simps)
qed

lemma bit_first_byte_mask:
  "d < 32 \<Longrightarrow> bit (NOT (push_bit d (0xFFFFFFFF :: 32 word))) n \<longleftrightarrow> n < d"
proof -
  have e: "(0xFFFFFFFF :: 32 word) = -1" by simp
  show "d < 32 \<Longrightarrow> bit (NOT (push_bit d (0xFFFFFFFF :: 32 word))) n \<longleftrightarrow> n < d"
    unfolding e by (auto simp: bit_simps)
qed

lemmas const_bits = bit_3F bit_80 bit_C0 bit_E0 bit_F0

lemma cont_byte_test:
  "(0x80 OR ucast (v AND 0x3F :: 32 word) :: 8 word) AND 0xC0 = 0x80"
  apply (rule bit_eqI)
  apply (auto simp: bit_simps const_bits)
  done

lemma cont_byte_data:
  "ucast ((0x80 OR ucast (v AND 0x3F :: 32 word) :: 8 word) AND 0x3F) = (v AND 0x3F :: 32 word)"
  apply (rule bit_eqI)
  apply (auto simp: bit_simps const_bits)
  done

lemma upper_bits_clear':
  fixes c :: "32 word"
  shows "c < 2 ^ k \<Longrightarrow> \<forall>m. k \<le> m \<longrightarrow> \<not> bit c m"
  using upper_bits_clear by blast

lemma bit_imp_less:
  fixes c :: "32 word"
  shows "c < 2 ^ k \<Longrightarrow> bit c n \<Longrightarrow> n < k"
  using upper_bits_clear [of c k n] by (cases "n < k") auto

lemma first_byte_bits:
  assumes "0 \<le> lo" "lo \<le> 7"
  shows "bit (ucast (b :: 8 word) AND NOT (shift_all_ones pf (7 - lo))) n
           \<longleftrightarrow> bit b n \<and> int n < 7 - lo"
proof -
  have s: "shift_all_ones pf (7 - lo) = push_bit (nat (7 - lo)) 0xFFFFFFFF"
    using assms by (simp add: shift_all_ones_def)
  have "nat (7 - lo) < 32" using assms by simp
  then have "bit (NOT (push_bit (nat (7 - lo)) (0xFFFFFFFF :: 32 word))) n \<longleftrightarrow> n < nat (7 - lo)"
    by (rule bit_first_byte_mask)
  then show ?thesis
    unfolding s using assms by (auto simp: bit_and_iff bit_ucast_iff dest: bit_imp_le_length)
qed

lemma utf8_next_multi:
  assumes "buffer it \<noteq> end_ptr it" "mem (buffer it) \<noteq> 0"
    and "leading_ones_of pf (mem (buffer it)) = lo" "lo \<noteq> 1"
    and "int (buffer it) + lo \<le> int (end_ptr it)"
  shows "utf8_next pf mem it =
     (case decode_loop mem (nat (lo - 1))
        (it\<lparr>buffer := buffer it + 1,
            codepoint := ucast (mem (buffer it)) AND NOT (shift_all_ones pf (7 - lo))\<rparr>) of
        (it', rs) \<Rightarrow> (it', buffer it # rs))"
  using assms by (simp add: utf8_next_def Let_def)

lemma decode_loop_cont:
  assumes "mem (buffer it) = 0x80 OR ucast (v AND 0x3F :: 32 word)"
  shows "decode_loop mem (Suc n) it =
     (case decode_loop mem n
             (it\<lparr>codepoint := push_bit 6 (codepoint it) OR (v AND 0x3F),
                 buffer := buffer it + 1\<rparr>) of
        (it', rs) \<Rightarrow> (it', buffer it # rs))"
  using assms by (simp add: cont_byte_test cont_byte_data Let_def)


subsection \<open>Decoding the four encoded forms\<close>

lemma roundtrip1:
  fixes c :: "32 word"
  assumes c: "c < 0x80" "c \<noteq> 0"
    and m: "mem p = ucast c" and e: "p + 1 \<le> e"
  shows "utf8_next pf mem \<lparr>buffer = p, end_ptr = e, codepoint = c0\<rparr>
           = (\<lparr>buffer = p + 1, end_ptr = e, codepoint = c\<rparr>, [p])"
proof -
  let ?it = "\<lparr>buffer = p, end_ptr = e, codepoint = c0\<rparr>"
  have "c < 2 ^ 7" using c by simp
  then have u: "\<forall>m. 7 \<le> m \<longrightarrow> \<not> bit c m" by (rule upper_bits_clear')
  have b_bits: "bit (ucast c :: 8 word) n \<longleftrightarrow> bit c n" for n
    using bit_imp_less [OF \<open>c < 2 ^ 7\<close>, of n] by (auto simp: bit_simps)
  have lo: "leading_ones_of pf (ucast c :: 8 word) = 0"
    using u by (simp add: leading_ones_of_bits b_bits)
  have nz: "(ucast c :: 8 word) \<noteq> 0"
  proof
    assume z: "(ucast c :: 8 word) = 0"
    have "bit c n = bit (0 :: 32 word) n" for n using b_bits [of n] z by simp
    then have "c = 0" by (simp add: bit_eq_iff)
    with c show False by simp
  qed
  define cp0 :: "32 word" where
    "cp0 = ucast (ucast c :: 8 word) AND NOT (shift_all_ones pf (7 - 0))"
  have "bit cp0 n \<longleftrightarrow> bit c n" for n
    unfolding cp0_def using first_byte_bits [where lo = 0 and b = "ucast c :: 8 word" and n = n and pf = pf] u
    by (auto simp: b_bits)
  then have cp0: "cp0 = c" by (simp add: bit_eq_iff)
  have "utf8_next pf mem ?it =
     (case decode_loop mem (nat (0 - 1)) (?it\<lparr>buffer := buffer ?it + 1, codepoint := cp0\<rparr>) of
        (it', rs) \<Rightarrow> (it', buffer ?it # rs))"
    unfolding cp0_def using m e nz lo
    by (subst utf8_next_multi [where lo = 0]) simp_all
  then show ?thesis by (simp add: cp0)
qed


lemma assemble_step:
  fixes c hi :: "32 word"
  assumes "\<And>n. bit hi n \<longleftrightarrow> n < w \<and> bit c (n + (k + 6))"
  shows "bit (push_bit 6 hi OR (drop_bit k c AND 0x3F)) n \<longleftrightarrow> n < w + 6 \<and> bit c (n + k)"
proof (cases "n < 6")
  case True
  then show ?thesis
    by (auto simp: bit_simps const_bits assms ac_simps dest: bit_imp_le_length)
next
  case False
  then have "n - 6 + (k + 6) = n + k" by simp
  with False show ?thesis
    by (auto simp: bit_simps const_bits assms dest: bit_imp_le_length)
qed

lemma roundtrip2:
  fixes c :: "32 word"
  assumes c: "c < 0x800"
    and m: "mem p = 0xC0 OR ucast (drop_bit 6 c)" "mem (p + 1) = 0x80 OR ucast (c AND 0x3F)"
    and e: "p + 2 \<le> e"
  shows "utf8_next pf mem \<lparr>buffer = p, end_ptr = e, codepoint = c0\<rparr>
           = (\<lparr>buffer = p + 2, end_ptr = e, codepoint = c\<rparr>, [p, p + 1])"
proof -
  let ?it = "\<lparr>buffer = p, end_ptr = e, codepoint = c0\<rparr>"
  let ?b = "0xC0 OR ucast (drop_bit 6 c) :: 8 word"
  have lt: "c < 2 ^ 11" using c by simp
  have b_bits: "bit ?b n \<longleftrightarrow> n = 6 \<or> n = 7 \<or> (n < 5 \<and> bit c (n + 6))" for n
    using bit_imp_less [OF lt, of "n + 6"] by (auto simp: bit_simps const_bits ac_simps)
  have lo: "leading_ones_of pf ?b = 2"
    by (simp add: leading_ones_of_bits b_bits)
  have nz: "?b \<noteq> 0"
  proof
    assume "?b = 0"
    then have "bit ?b 7 = bit (0 :: 8 word) 7" by simp
    then show False by (simp add: b_bits)
  qed
  define cp0 :: "32 word" where
    "cp0 = ucast ?b AND NOT (shift_all_ones pf (7 - 2))"
  have cp0: "bit cp0 n \<longleftrightarrow> n < 5 \<and> bit c (n + (0 + 6))" for n
    unfolding cp0_def using first_byte_bits [where lo = 2 and b = ?b and n = n and pf = pf]
    by (auto simp: b_bits)
  have "bit (push_bit 6 cp0 OR (c AND 0x3F)) n \<longleftrightarrow> bit c n" for n
    using assemble_step [of cp0 5 c 0 n, OF cp0] bit_imp_less [OF lt, of n] by auto
  then have fin: "push_bit 6 cp0 OR (c AND 0x3F) = c" by (simp add: bit_eq_iff)
  have "utf8_next pf mem ?it =
     (case decode_loop mem (nat (2 - 1)) (?it\<lparr>buffer := buffer ?it + 1, codepoint := cp0\<rparr>) of
        (it', rs) \<Rightarrow> (it', buffer ?it # rs))"
    unfolding cp0_def using m e nz lo
    by (subst utf8_next_multi [where lo = 2]) simp_all
  moreover have "nat (2 - 1) = Suc 0" by simp
  ultimately show ?thesis
    using m(2) by (simp add: Let_def cont_byte_test cont_byte_data fin)
qed


lemma roundtrip3:
  fixes c :: "32 word"
  assumes c: "c < 0x10000"
    and m: "mem p = 0xE0 OR ucast (drop_bit 12 c)"
      "mem (p + 1) = 0x80 OR ucast (drop_bit 6 c AND 0x3F)"
      "mem (p + 2) = 0x80 OR ucast (c AND 0x3F)"
    and e: "p + 3 \<le> e"
  shows "utf8_next pf mem \<lparr>buffer = p, end_ptr = e, codepoint = c0\<rparr>
           = (\<lparr>buffer = p + 3, end_ptr = e, codepoint = c\<rparr>, [p, p + 1, p + 2])"
proof -
  let ?it = "\<lparr>buffer = p, end_ptr = e, codepoint = c0\<rparr>"
  let ?b = "0xE0 OR ucast (drop_bit 12 c) :: 8 word"
  have lt: "c < 2 ^ 16" using c by simp
  have b_bits: "bit ?b n \<longleftrightarrow> n = 5 \<or> n = 6 \<or> n = 7 \<or> (n < 4 \<and> bit c (n + 12))" for n
    using bit_imp_less [OF lt, of "n + 12"] by (auto simp: bit_simps const_bits ac_simps)
  have lo: "leading_ones_of pf ?b = 3"
    by (simp add: leading_ones_of_bits b_bits)
  have nz: "?b \<noteq> 0"
  proof
    assume "?b = 0"
    then have "bit ?b 7 = bit (0 :: 8 word) 7" by simp
    then show False by (simp add: b_bits)
  qed
  define cp0 :: "32 word" where
    "cp0 = ucast ?b AND NOT (shift_all_ones pf (7 - 3))"
  define cp1 :: "32 word" where "cp1 = push_bit 6 cp0 OR (drop_bit 6 c AND 0x3F)"
  have cp0: "bit cp0 n \<longleftrightarrow> n < 4 \<and> bit c (n + (6 + 6))" for n
    unfolding cp0_def using first_byte_bits [where lo = 3 and b = ?b and n = n and pf = pf]
    by (auto simp: b_bits)
  have cp1: "bit cp1 n \<longleftrightarrow> n < 10 \<and> bit c (n + (0 + 6))" for n
    unfolding cp1_def using assemble_step [of cp0 4 c 6 n, OF cp0] by simp
  have "bit (push_bit 6 cp1 OR (c AND 0x3F)) n \<longleftrightarrow> bit c n" for n
    using assemble_step [of cp1 10 c 0 n, OF cp1] bit_imp_less [OF lt, of n] by auto
  then have fin: "push_bit 6 cp1 OR (c AND 0x3F) = c" by (simp add: bit_eq_iff)
  let ?it1 = "\<lparr>buffer = p + 1, end_ptr = e, codepoint = cp0\<rparr>"
  let ?it2 = "\<lparr>buffer = p + 2, end_ptr = e, codepoint = cp1\<rparr>"
  let ?it3 = "\<lparr>buffer = p + 3, end_ptr = e, codepoint = c\<rparr>"
  have "utf8_next pf mem ?it =
     (case decode_loop mem (nat (3 - 1)) (?it\<lparr>buffer := buffer ?it + 1, codepoint := cp0\<rparr>) of
        (it', rs) \<Rightarrow> (it', buffer ?it # rs))"
    unfolding cp0_def using m e nz lo
    by (subst utf8_next_multi [where lo = 3]) simp_all
  moreover have "nat (3 - 1) = Suc (Suc 0)" by simp
  moreover have "?it\<lparr>buffer := buffer ?it + 1, codepoint := cp0\<rparr> = ?it1" by simp
  moreover have "buffer ?it = p" by simp
  ultimately have main: "utf8_next pf mem ?it =
     (case decode_loop mem (Suc (Suc 0)) ?it1 of (it', rs) \<Rightarrow> (it', p # rs))"
    by (simp only:)
  have s1: "decode_loop mem (Suc (Suc 0)) ?it1 =
     (case decode_loop mem (Suc 0) ?it2 of (it', rs) \<Rightarrow> (it', (p + 1) # rs))"
    using m(2) unfolding cp1_def
    by (simp add: decode_loop_cont [where v = "drop_bit 6 c"] del: decode_loop.simps)
  have s2: "decode_loop mem (Suc 0) ?it2 = (?it3, [p + 2])"
    using m(3) fin by (simp add: Let_def cont_byte_test cont_byte_data)
  show ?thesis unfolding main s1 s2 by simp
qed

lemma roundtrip4:
  fixes c :: "32 word"
  assumes c: "c \<le> 0x10FFFF"
    and m: "mem p = 0xF0 OR ucast (drop_bit 18 c)"
      "mem (p + 1) = 0x80 OR ucast (drop_bit 12 c AND 0x3F)"
      "mem (p + 2) = 0x80 OR ucast (drop_bit 6 c AND 0x3F)"
      "mem (p + 3) = 0x80 OR ucast (c AND 0x3F)"
    and e: "p + 4 \<le> e"
  shows "utf8_next pf mem \<lparr>buffer = p, end_ptr = e, codepoint = c0\<rparr>
           = (\<lparr>buffer = p + 4, end_ptr = e, codepoint = c\<rparr>, [p, p + 1, p + 2, p + 3])"
proof -
  let ?it = "\<lparr>buffer = p, end_ptr = e, codepoint = c0\<rparr>"
  let ?b = "0xF0 OR ucast (drop_bit 18 c) :: 8 word"
  have "c < 0x200000" using c by (simp add: word_le_nat_alt word_less_nat_alt)
  then have lt: "c < 2 ^ 21" by simp
  have b_bits: "bit ?b n \<longleftrightarrow> n = 4 \<or> n = 5 \<or> n = 6 \<or> n = 7 \<or> (n < 3 \<and> bit c (n + 18))" for n
    using bit_imp_less [OF lt, of "n + 18"] by (auto simp: bit_simps const_bits ac_simps)
  have lo: "leading_ones_of pf ?b = 4"
    by (simp add: leading_ones_of_bits b_bits)
  have nz: "?b \<noteq> 0"
  proof
    assume "?b = 0"
    then have "bit ?b 7 = bit (0 :: 8 word) 7" by simp
    then show False by (simp add: b_bits)
  qed
  define cp0 :: "32 word" where
    "cp0 = ucast ?b AND NOT (shift_all_ones pf (7 - 4))"
  define cp1 :: "32 word" where "cp1 = push_bit 6 cp0 OR (drop_bit 12 c AND 0x3F)"
  define cp2 :: "32 word" where "cp2 = push_bit 6 cp1 OR (drop_bit 6 c AND 0x3F)"
  have cp0: "bit cp0 n \<longleftrightarrow> n < 3 \<and> bit c (n + (12 + 6))" for n
    unfolding cp0_def using first_byte_bits [where lo = 4 and b = ?b and n = n and pf = pf]
    by (auto simp: b_bits)
  have cp1: "bit cp1 n \<longleftrightarrow> n < 9 \<and> bit c (n + (6 + 6))" for n
    unfolding cp1_def using assemble_step [of cp0 3 c 12 n, OF cp0] by simp
  have cp2: "bit cp2 n \<longleftrightarrow> n < 15 \<and> bit c (n + (0 + 6))" for n
    unfolding cp2_def using assemble_step [of cp1 9 c 6 n, OF cp1] by simp
  have "bit (push_bit 6 cp2 OR (c AND 0x3F)) n \<longleftrightarrow> bit c n" for n
    using assemble_step [of cp2 15 c 0 n, OF cp2] bit_imp_less [OF lt, of n] by auto
  then have fin: "push_bit 6 cp2 OR (c AND 0x3F) = c" by (simp add: bit_eq_iff)
  let ?it1 = "\<lparr>buffer = p + 1, end_ptr = e, codepoint = cp0\<rparr>"
  let ?it2 = "\<lparr>buffer = p + 2, end_ptr = e, codepoint = cp1\<rparr>"
  let ?it3 = "\<lparr>buffer = p + 3, end_ptr = e, codepoint = cp2\<rparr>"
  let ?it4 = "\<lparr>buffer = p + 4, end_ptr = e, codepoint = c\<rparr>"
  have "utf8_next pf mem ?it =
     (case decode_loop mem (nat (4 - 1)) (?it\<lparr>buffer := buffer ?it + 1, codepoint := cp0\<rparr>) of
        (it', rs) \<Rightarrow> (it', buffer ?it # rs))"
    unfolding cp0_def using m e nz lo
    by (subst utf8_next_multi [where lo = 4]) simp_all
  moreover have "nat (4 - 1) = Suc (Suc (Suc 0))" by simp
  moreover have "?it\<lparr>buffer := buffer ?it + 1, codepoint := cp0\<rparr> = ?it1" by simp
  moreover have "buffer ?it = p" by simp
  ultimately have main: "utf8_next pf mem ?it =
     (case decode_loop mem (Suc (Suc (Suc 0))) ?it1 of (it', rs) \<Rightarrow> (it', p # rs))"
    by (simp only:)
  have s1: "decode_loop mem (Suc (Suc (Suc 0))) ?it1 =
     (case decode_loop mem (Suc (Suc 0)) ?it2 of (it', rs) \<Rightarrow> (it', (p + 1) # rs))"
    using m(2) unfolding cp1_def
    by (simp add: decode_loop_cont [where v = "drop_bit 12 c"] del: decode_loop.simps)
  have s2: "decode_loop mem (Suc (Suc 0)) ?it2 =
     (case decode_loop mem (Suc 0) ?it3 of (it', rs) \<Rightarrow> (it', (p + 2) # rs))"
    using m(3) unfolding cp2_def
    by (simp add: decode_loop_cont [where v = "drop_bit 6 c"] numeral_3_eq_3 del: decode_loop.simps)
  have s3: "decode_loop mem (Suc 0) ?it3 = (?it4, [p + 3])"
    using m(4) fin by (simp add: Let_def cont_byte_test cont_byte_data)
  show ?thesis unfolding main s1 s2 s3 by simp
qed

section \<open>Claims about the UTF-8 iterator\<close>

text \<open>
  Claim C10, as amended. Whenever \<open>utf8_next\<close> is called on a cursor at or before its end
  bound and returns a nonzero codepoint, the returned cursor is strictly greater than the
  input cursor; the returned cursor is again at or before the end bound. Consequently
  the iteration of line 545 returns the list of its codepoints: from any iterator whose
  cursor is at or before its end bound, and from \<open>utf8_first\<close> on any text pointer (whose
  end bound is \<open>UINTPTR_MAX\<close>, so this covers every zero-terminated buffer). This holds for
  every content of the buffer, the byte \<open>0xFF\<close> included, whatever the target yields for
  \<open>__builtin_clz(0)\<close> and for the shift that follows it.
\<close>

theorem utf8_iteration_terminates:
  "(\<forall>it' rs. buffer it \<le> end_ptr it \<longrightarrow> utf8_next pf mem it = (it', rs) \<longrightarrow>
       (codepoint it' \<noteq> 0 \<longrightarrow> buffer it < buffer it') \<and> buffer it' \<le> end_ptr it')
   \<and> (buffer it \<le> end_ptr it \<longrightarrow> (\<exists>cs. utf8_iterate pf mem it = Some cs))
   \<and> (text_ptr \<le> UINTPTR_MAX \<longrightarrow> (\<exists>cs. utf8_iterate_first pf mem text_ptr = Some cs))"
proof (intro conjI allI impI)
  fix it' rs
  assume a: "buffer it \<le> end_ptr it" "utf8_next pf mem it = (it', rs)"
  {
    assume "codepoint it' \<noteq> 0"
    with a show "buffer it < buffer it'" using utf8_next_progress [of pf mem it it' rs] by simp
  }
  from a show "buffer it' \<le> end_ptr it'" using utf8_next_progress [of pf mem it it' rs] by simp
next
  assume "buffer it \<le> end_ptr it"
  then show "\<exists>cs. utf8_iterate pf mem it = Some cs" by (rule utf8_iterate_returns)
next
  assume le: "text_ptr \<le> UINTPTR_MAX"
  obtain it' rs where p: "utf8_first pf mem text_ptr = (it', rs)"
    by (cases "utf8_first pf mem text_ptr")
  from p le have "buffer it' \<le> end_ptr it'"
    using utf8_next_progress
      [of pf mem "\<lparr>buffer = text_ptr, end_ptr = UINTPTR_MAX, codepoint = 0\<rparr>" it' rs]
    by (simp add: utf8_first_def)
  then have "\<exists>cs. utf8_iterate pf mem it' = Some cs" by (rule utf8_iterate_returns)
  with p show "\<exists>cs. utf8_iterate_first pf mem text_ptr = Some cs"
    by (simp add: utf8_iterate_first_def)
qed

theorem utf8_iteration_terminates_witness:
  "\<forall>pf.
     buffer \<lparr>buffer = 0, end_ptr = 4, codepoint = 0x41\<rparr>
        \<le> end_ptr \<lparr>buffer = 0, end_ptr = 4, codepoint = 0x41\<rparr>
   \<and> utf8_next pf (mem_of [0x41, 0xFF, 0x42, 0]) \<lparr>buffer = 0, end_ptr = 4, codepoint = 0x41\<rparr>
       = (\<lparr>buffer = 1, end_ptr = 4, codepoint = 0x41\<rparr>, [0])
   \<and> buffer \<lparr>buffer = 0, end_ptr = 4, codepoint = 0x41\<rparr>
        < buffer \<lparr>buffer = 1, end_ptr = 4, codepoint = 0x41\<rparr>
   \<and> (\<exists>cs. utf8_iterate pf (mem_of [0x41, 0xFF, 0x42, 0])
              \<lparr>buffer = 0, end_ptr = 4, codepoint = 0x41\<rparr> = Some cs)
   \<and> (\<exists>cs. utf8_iterate_first pf (mem_of [0x41, 0xFF, 0x42, 0]) 0 = Some cs)"
proof
  fix pf
  let ?m = "mem_of [0x41, 0xFF, 0x42, 0]"
  let ?it = "\<lparr>buffer = 0, end_ptr = 4, codepoint = 0x41\<rparr>"
  have n: "utf8_next pf ?m ?it = (\<lparr>buffer = 1, end_ptr = 4, codepoint = 0x41\<rparr>, [0])"
    by (simp add: utf8_next_def mem_of_def leading_ones_of_bits shift_all_ones_def Let_def)
  have u: "(0::nat) \<le> UINTPTR_MAX" by simp
  show "buffer ?it \<le> end_ptr ?it
   \<and> utf8_next pf ?m ?it = (\<lparr>buffer = 1, end_ptr = 4, codepoint = 0x41\<rparr>, [0])
   \<and> buffer ?it < buffer \<lparr>buffer = 1, end_ptr = 4, codepoint = 0x41\<rparr>
   \<and> (\<exists>cs. utf8_iterate pf ?m ?it = Some cs)
   \<and> (\<exists>cs. utf8_iterate_first pf ?m 0 = Some cs)"
    using utf8_iteration_terminates [of ?it pf ?m 0] n u by simp
qed

text \<open>
  Claim C10 as first stated fails for a cursor behind its end bound, which the claim
  does not exclude. With the cursor 2, the end bound 1 and the lead byte \<open>0xC3\<close> at the
  cursor, the bounds check of line 54 fails and line 79 sets the cursor to the end
  bound: \<open>utf8_next\<close> returns the nonzero codepoint U+FFFD with the cursor 1, which is
  less than the input cursor.
\<close>

theorem utf8_next_moves_back_behind_end:
  "\<forall>pf. utf8_next pf (mem_of [0x41, 0x42, 0xC3]) \<lparr>buffer = 2, end_ptr = 1, codepoint = 0\<rparr>
          = (\<lparr>buffer = 1, end_ptr = 1, codepoint = 0xFFFD\<rparr>, [2])
        \<and> (0xFFFD :: 32 word) \<noteq> 0 \<and> \<not> (2 :: nat) < 1"
  by (simp add: utf8_next_def mem_of_def leading_ones_of_bits shift_all_ones_def Let_def)

text \<open>
  Claim C3, which the code does not meet. On the one-byte buffer \<open>0x80\<close> with the end bound 1
  and the cursor 0, \<open>utf8_next\<close> reads position 0, steps over the stray continuation byte and
  then evaluates the condition of the skip loop once more, which dereferences position
  1, the end bound itself, before comparing the cursor with the bound.
\<close>

theorem utf8_next_reads_end_bound:
  "\<forall>pf. utf8_next pf (mem_of [0x80]) \<lparr>buffer = 0, end_ptr = 1, codepoint = 0\<rparr>
     = (\<lparr>buffer = 1, end_ptr = 1, codepoint = 0xFFFD\<rparr>, [0, 1])"
  by (simp add: utf8_next_def mem_of_def leading_ones_of_bits Let_def skip_loop.simps)

text \<open>
  Claim C4, as amended. Decoding the two bytes \<open>0xC0 0x80\<close> with \<open>utf8_next\<close> yields the
  codepoint 0 (the overlong form of U+0000 is decoded, not replaced by U+FFFD), and
  the returned cursor stands on the byte that follows the two bytes.
\<close>

theorem utf8_next_overlong_nul:
  assumes "mem p = 0xC0" "mem (p + 1) = 0x80" "p + 2 \<le> e"
  shows "utf8_next pf mem \<lparr>buffer = p, end_ptr = e, codepoint = c0\<rparr>
           = (\<lparr>buffer = p + 2, end_ptr = e, codepoint = 0\<rparr>, [p, p + 1])"
  using assms roundtrip2 [of 0 mem p e pf c0] by simp

theorem utf8_next_overlong_nul_witness:
  "\<forall>pf. utf8_next pf (mem_of [0xC0, 0x80, 0x41]) \<lparr>buffer = 0, end_ptr = 3, codepoint = 0\<rparr>
     = (\<lparr>buffer = 2, end_ptr = 3, codepoint = 0\<rparr>, [0, 1])"
proof
  fix pf
  show "utf8_next pf (mem_of [0xC0, 0x80, 0x41]) \<lparr>buffer = 0, end_ptr = 3, codepoint = 0\<rparr>
     = (\<lparr>buffer = 2, end_ptr = 3, codepoint = 0\<rparr>, [0, 1])"
    using utf8_next_overlong_nul [of "mem_of [0xC0, 0x80, 0x41]" 0 3 pf 0]
    by (simp add: mem_of_def)
qed

text \<open>
  Claim C4 as first stated fails: the codepoint returned for \<open>0xC0 0x80\<close> is not U+FFFD.
\<close>

theorem utf8_next_overlong_not_replaced:
  "\<forall>pf. \<not> (\<exists>it rs. utf8_next pf (mem_of [0xC0, 0x80]) \<lparr>buffer = 0, end_ptr = 2, codepoint = 0\<rparr>
                = (it, rs)
        \<and> codepoint it = 0xFFFD)"
  by (simp add: utf8_next_def mem_of_def leading_ones_of_bits shift_all_ones_def Let_def)

lemma mem_bytes:
  assumes "\<forall>i < length bs. mem (p + i) = bs ! i" and "i < length bs"
  shows "mem (p + i) = bs ! i"
  using assms by blast

text \<open>
  Claim C7, as amended. For every Unicode scalar value other than U+0000, decoding its
  canonical UTF-8 encoding with \<open>utf8_next\<close> (the encoded bytes at the cursor, the end bound
  at or behind their end) yields the scalar value as the codepoint and advances the
  cursor by exactly the number of encoded bytes.
\<close>

theorem utf8_roundtrip:
  assumes "is_scalar_value c" and "c \<noteq> 0"
    and "\<forall>i < length (utf8_encode c). mem (p + i) = utf8_encode c ! i"
    and "p + length (utf8_encode c) \<le> e"
  shows "\<exists>rs. utf8_next pf mem \<lparr>buffer = p, end_ptr = e, codepoint = c0\<rparr>
           = (\<lparr>buffer = p + length (utf8_encode c), end_ptr = e, codepoint = c\<rparr>, rs)"
proof -
  note mb = mem_bytes [OF assms(3)]
  consider "c < 0x80" | "\<not> c < 0x80" "c < 0x800" | "\<not> c < 0x80" "\<not> c < 0x800" "c < 0x10000"
    | "\<not> c < 0x80" "\<not> c < 0x800" "\<not> c < 0x10000"
    by blast
  then show ?thesis
  proof cases
    case 1
    then have enc: "utf8_encode c = [ucast c]" by (simp add: utf8_encode_def)
    have "mem p = ucast c" using mb [of 0] by (simp add: enc)
    moreover have "p + 1 \<le> e" using assms(4) by (simp add: enc)
    ultimately show ?thesis
      using 1 assms(2) roundtrip1 [of c mem p e pf c0] by (simp add: enc)
  next
    case 2
    then have enc: "utf8_encode c = [0xC0 OR ucast (drop_bit 6 c), 0x80 OR ucast (c AND 0x3F)]"
      by (simp add: utf8_encode_def)
    have "mem p = 0xC0 OR ucast (drop_bit 6 c)" using mb [of 0] by (simp add: enc)
    moreover have "mem (p + 1) = 0x80 OR ucast (c AND 0x3F)" using mb [of 1] by (simp add: enc)
    moreover have "p + 2 \<le> e" using assms(4) by (simp add: enc)
    ultimately show ?thesis
      using 2 roundtrip2 [of c mem p e pf c0] by (simp add: enc)
  next
    case 3
    then have enc: "utf8_encode c = [0xE0 OR ucast (drop_bit 12 c),
        0x80 OR ucast (drop_bit 6 c AND 0x3F), 0x80 OR ucast (c AND 0x3F)]"
      by (simp add: utf8_encode_def)
    have "mem p = 0xE0 OR ucast (drop_bit 12 c)" using mb [of 0] by (simp add: enc)
    moreover have "mem (p + 1) = 0x80 OR ucast (drop_bit 6 c AND 0x3F)"
      using mb [of 1] by (simp add: enc)
    moreover have "mem (p + 2) = 0x80 OR ucast (c AND 0x3F)" using mb [of 2] by (simp add: enc)
    moreover have "p + 3 \<le> e" using assms(4) by (simp add: enc)
    ultimately show ?thesis
      using 3 roundtrip3 [of c mem p e pf c0] by (simp add: enc)
  next
    case 4
    then have enc: "utf8_encode c = [0xF0 OR ucast (drop_bit 18 c),
        0x80 OR ucast (drop_bit 12 c AND 0x3F), 0x80 OR ucast (drop_bit 6 c AND 0x3F),
        0x80 OR ucast (c AND 0x3F)]"
      by (simp add: utf8_encode_def)
    have "mem p = 0xF0 OR ucast (drop_bit 18 c)" using mb [of 0] by (simp add: enc)
    moreover have "mem (p + 1) = 0x80 OR ucast (drop_bit 12 c AND 0x3F)"
      using mb [of 1] by (simp add: enc)
    moreover have "mem (p + 2) = 0x80 OR ucast (drop_bit 6 c AND 0x3F)"
      using mb [of 2] by (simp add: enc)
    moreover have "mem (p + 3) = 0x80 OR ucast (c AND 0x3F)" using mb [of 3] by (simp add: enc)
    moreover have "p + 4 \<le> e" using assms(4) by (simp add: enc)
    moreover from assms(1) have "c \<le> 0x10FFFF" by (simp add: is_scalar_value_def)
    ultimately show ?thesis
      using 4 roundtrip4 [of c mem p e pf c0] by (simp add: enc)
  qed
qed

theorem utf8_roundtrip_witness:
  "\<forall>pf. is_scalar_value 0x20AC \<and> utf8_encode 0x20AC = [0xE2, 0x82, 0xAC]
   \<and> (\<exists>rs. utf8_next pf (mem_of [0xE2, 0x82, 0xAC]) \<lparr>buffer = 0, end_ptr = 3, codepoint = 0\<rparr>
           = (\<lparr>buffer = 3, end_ptr = 3, codepoint = 0x20AC\<rparr>, rs))"
proof
  fix pf
  have s: "is_scalar_value 0x20AC" by (simp add: is_scalar_value_def)
  have enc: "utf8_encode 0x20AC = [0xE2, 0x82, 0xAC]" by (simp add: utf8_encode_def)
  have m: "\<forall>i < length (utf8_encode 0x20AC).
             mem_of [0xE2, 0x82, 0xAC] (0 + i) = utf8_encode 0x20AC ! i"
    by (simp add: enc mem_of_def)
  have e: "0 + length (utf8_encode 0x20AC) \<le> 3" by (simp add: enc)
  show "is_scalar_value 0x20AC \<and> utf8_encode 0x20AC = [0xE2, 0x82, 0xAC]
   \<and> (\<exists>rs. utf8_next pf (mem_of [0xE2, 0x82, 0xAC]) \<lparr>buffer = 0, end_ptr = 3, codepoint = 0\<rparr>
           = (\<lparr>buffer = 3, end_ptr = 3, codepoint = 0x20AC\<rparr>, rs))"
    using utf8_roundtrip [OF s _ m e, of pf 0] s enc by (simp add: numeral_3_eq_3)
qed

text \<open>
  Claim C7 as first stated fails at U+0000: its encoding is the single byte 0, which
  \<open>utf8_next\<close> takes for the terminator, so the cursor stays where it was instead of
  advancing by one byte.
\<close>

theorem utf8_roundtrip_nul_counterexample:
  "\<forall>pf. is_scalar_value 0 \<and> utf8_encode 0 = [0]
   \<and> utf8_next pf (mem_of [0]) \<lparr>buffer = 0, end_ptr = 1, codepoint = 0\<rparr>
        = (\<lparr>buffer = 0, end_ptr = 1, codepoint = 0\<rparr>, [0])
   \<and> (0::nat) \<noteq> 0 + length (utf8_encode 0)"
  by (simp add: is_scalar_value_def utf8_encode_def utf8_next_def mem_of_def Let_def)

section \<open>Properties of the LCD filter\<close>

lemmas atlas_consts = atlas_item_width_def atlas_item_height_def horizontal_resolution_def
  bitmap_stride_def bitmap_size_def horizontal_filter_padding_def
  subpixel_positioning_left_padding_def

lemma kernel_loop_value:
  assumes "0 \<le> kernel_x" "kernel_x_end \<le> x_end" "x_end \<le> 95" "0 \<le> y" "y < h" "h \<le> 32"
    and "int i + (kernel_x_end + 1 - kernel_x) \<le> 5" and "kernel_x \<le> kernel_x_end + 1"
  shows "kernel_loop gb h x_end y kernel_x_end kernel_x i acc =
     Inr (acc + (\<Sum>j \<leftarrow> [0..<nat (kernel_x_end + 1 - kernel_x)].
                   uint (gb (nat (kernel_x + int j + y * bitmap_stride)))
                     * filter_weights ! (i + j)))"
  using assms(1,7,8)
proof (induction "nat (kernel_x_end + 1 - kernel_x)" arbitrary: kernel_x i acc)
  case 0
  then have "\<not> kernel_x \<le> kernel_x_end" by simp
  moreover from 0 have "nat (kernel_x_end + 1 - kernel_x) = 0" by simp
  ultimately show ?case by (subst kernel_loop.simps) simp
next
  case (Suc n)
  then have le: "kernel_x \<le> kernel_x_end" by simp
  have a1: "kernel_x \<ge> 0 \<and> kernel_x < x_end + 1" using le Suc.prems assms(2) by simp
  have a2: "y \<ge> 0 \<and> y < h" using assms by simp
  have a3: "kernel_x + y * bitmap_stride \<ge> 0 \<and> kernel_x + y * bitmap_stride < bitmap_size"
    using le Suc.prems assms(2-6) by (simp add: atlas_consts)
  have a4: "i < length filter_weights" using le Suc.prems by (simp add: filter_weights_def)
  have n: "n = nat (kernel_x_end + 1 - (kernel_x + 1))" using Suc.hyps(2) by simp
  have IH: "kernel_loop gb h x_end y kernel_x_end (kernel_x + 1) (i + 1)
              (acc + uint (gb (nat (kernel_x + y * bitmap_stride))) * filter_weights ! i) =
     Inr (acc + uint (gb (nat (kernel_x + y * bitmap_stride))) * filter_weights ! i
          + (\<Sum>j \<leftarrow> [0..<nat (kernel_x_end + 1 - (kernel_x + 1))].
                   uint (gb (nat (kernel_x + 1 + int j + y * bitmap_stride)))
                     * filter_weights ! (i + 1 + j)))"
    using Suc.prems le by (intro Suc.hyps(1) [OF n]) simp_all
  have step: "kernel_loop gb h x_end y kernel_x_end kernel_x i acc =
      kernel_loop gb h x_end y kernel_x_end (kernel_x + 1) (i + 1)
        (acc + uint (gb (nat (kernel_x + y * bitmap_stride))) * filter_weights ! i)"
    using le a1 a2 a3 a4 by (subst kernel_loop.simps) (simp add: Let_def)
  have m: "nat (kernel_x_end + 1 - kernel_x) = Suc (nat (kernel_x_end + 1 - (kernel_x + 1)))"
    using le by simp
  have s: "(\<Sum>j \<leftarrow> [0..<Suc k]. f j) = f 0 + (\<Sum>j \<leftarrow> [0..<k]. f (Suc j))"
    for k and f :: "nat \<Rightarrow> int"
  proof -
    have "[0..<Suc k] = 0 # [Suc 0..<Suc k]" by (rule upt_conv_Cons) simp
    also have "[Suc 0..<Suc k] = map Suc [0..<k]" by (simp only: map_Suc_upt)
    finally show ?thesis by (simp add: comp_def del: upt_Suc)
  qed
  let ?F = "\<lambda>j. uint (gb (nat (kernel_x + int j + y * bitmap_stride))) * filter_weights ! (i + j)"
  let ?G = "\<lambda>j. uint (gb (nat (kernel_x + 1 + int j + y * bitmap_stride)))
                  * filter_weights ! (i + 1 + j)"
  have fg: "?F (Suc j) = ?G j" for j by (simp add: algebra_simps)
  have "(\<Sum>j \<leftarrow> [0..<nat (kernel_x_end + 1 - kernel_x)]. ?F j)
      = ?F 0 + (\<Sum>j \<leftarrow> [0..<nat (kernel_x_end + 1 - (kernel_x + 1))]. ?F (Suc j))"
    unfolding m by (rule s)
  also have "\<dots> = ?F 0 + (\<Sum>j \<leftarrow> [0..<nat (kernel_x_end + 1 - (kernel_x + 1))]. ?G j)"
    by (simp only: fg)
  finally have "acc + (\<Sum>j \<leftarrow> [0..<nat (kernel_x_end + 1 - kernel_x)]. ?F j)
      = acc + uint (gb (nat (kernel_x + y * bitmap_stride))) * filter_weights ! i
          + (\<Sum>j \<leftarrow> [0..<nat (kernel_x_end + 1 - (kernel_x + 1))]. ?G j)"
    by simp
  with step IH show ?case by simp
qed


lemma kernel_loop_taps:
  assumes "4 \<le> x" "x < x_end" "x_end \<le> 95" "0 \<le> y" "y < h" "h \<le> 32"
    and "ke = (if x = x_end - 1 then x + 1 else x + 2)"
  shows "kernel_loop gb h x_end y ke (x - 2) 0 0 = Inr (filter_tap_sum gb x_end x y)"
proof -
  have n: "nat (ke + 1 - (x - 2)) = (if x = x_end - 1 then 4 else 5)" using assms(7) by simp
  have "kernel_loop gb h x_end y ke (x - 2) 0 0 =
     Inr (0 + (\<Sum>j \<leftarrow> [0..<nat (ke + 1 - (x - 2))].
                   uint (gb (nat (x - 2 + int j + y * bitmap_stride)))
                     * filter_weights ! (0 + j)))"
    using assms by (intro kernel_loop_value) auto
  then show ?thesis unfolding n by (simp add: filter_tap_sum_def)
qed

lemma column_loop_result:
  assumes "4 \<le> x" "x_end \<le> 95" "0 \<le> y" "y < h" "h \<le> 32"
  shows "\<exists>bm'. column_loop gb h x_end y x (bm, ws)
             = Inr (bm', ws @ map (\<lambda>x'. (x', y)) [x..x_end - 1])
           \<and> (\<forall>off. (\<forall>x'. x \<le> x' \<and> x' < x_end \<longrightarrow> off \<noteq> nat (x' + y * 96))
                 \<longrightarrow> bm' off = bm off)
           \<and> (\<forall>x'. x \<le> x' \<and> x' < x_end \<longrightarrow>
                 bm' (nat (x' + y * 96)) = filtered_value gb x_end x' y)"
  using assms(1)
proof (induction "nat (x_end - x)" arbitrary: x bm ws)
  case 0
  then have "\<not> x < x_end" by simp
  then show ?case by (subst column_loop.simps) auto
next
  case (Suc n)
  then have lt: "x < x_end" by simp
  define ke where "ke = (if x = x_end - 1 then x + 1 else x + 2)"
  define r where "r = filter_tap_sum gb x_end x y"
  have r: "kernel_loop gb h x_end y ke (x - 2) 0 0 = Inr r"
    unfolding r_def using lt Suc.prems assms(2-5) by (intro kernel_loop_taps) (simp_all add: ke_def)
  define v :: "8 word" where "v = (if r div 255 > 255 then 255 else word_of_int (r div 255))"
  have v: "v = filtered_value gb x_end x y" by (simp add: v_def r_def filtered_value_def)
  define o1 where "o1 = nat (x + y * bitmap_stride)"
  have off: "x + y * bitmap_stride \<ge> 0 \<and> x + y * bitmap_stride < bitmap_size"
    using lt Suc.prems assms(2-5) by (simp add: atlas_consts)
  have n: "n = nat (x_end - (x + 1))" using Suc.hyps(2) by simp
  have "4 \<le> x + 1" using Suc.prems by simp
  from Suc.hyps(1) [OF n this, of "bm(o1 := v)" "ws @ [(x, y)]"]
  obtain bm' where
    IH: "column_loop gb h x_end y (x + 1) (bm(o1 := v), ws @ [(x, y)])
           = Inr (bm', (ws @ [(x, y)]) @ map (\<lambda>x'. (x', y)) [x + 1..x_end - 1])"
      "\<forall>off. (\<forall>x'. x + 1 \<le> x' \<and> x' < x_end \<longrightarrow> off \<noteq> nat (x' + y * 96)) \<longrightarrow>
             bm' off = (bm(o1 := v)) off"
      "\<forall>x'. x + 1 \<le> x' \<and> x' < x_end \<longrightarrow>
             bm' (nat (x' + y * 96)) = filtered_value gb x_end x' y"
    by blast
  have up: "[x..x_end - 1] = x # [x + 1..x_end - 1]" using lt by (simp add: upto_rec1)
  have "column_loop gb h x_end y x (bm, ws) = Inr (bm', ws @ map (\<lambda>x'. (x', y)) [x..x_end - 1])"
    using lt r off IH(1) up
    by (subst column_loop.simps) (simp add: Let_def ke_def v_def o1_def)
  moreover have "\<forall>off. (\<forall>x'. x \<le> x' \<and> x' < x_end \<longrightarrow> off \<noteq> nat (x' + y * 96))
      \<longrightarrow> bm' off = bm off"
  proof (intro allI impI)
    fix off
    assume a: "\<forall>x'. x \<le> x' \<and> x' < x_end \<longrightarrow> off \<noteq> nat (x' + y * 96)"
    then have "\<forall>x'. x + 1 \<le> x' \<and> x' < x_end \<longrightarrow> off \<noteq> nat (x' + y * 96)" by auto
    with IH(2) have "bm' off = (bm(o1 := v)) off" by blast
    moreover from a lt have "off \<noteq> nat (x + y * 96)" by auto
    ultimately show "bm' off = bm off" by (simp add: atlas_consts o1_def)
  qed
  moreover have "\<forall>x'. x \<le> x' \<and> x' < x_end \<longrightarrow>
      bm' (nat (x' + y * 96)) = filtered_value gb x_end x' y"
  proof (intro allI impI)
    fix x'
    assume a: "x \<le> x' \<and> x' < x_end"
    show "bm' (nat (x' + y * 96)) = filtered_value gb x_end x' y"
    proof (cases "x' = x")
      case True
      have "\<forall>x''. x + 1 \<le> x'' \<and> x'' < x_end \<longrightarrow> nat (x + y * 96) \<noteq> nat (x'' + y * 96)"
        using Suc.prems assms(3) by auto
      with IH(2) have "bm' (nat (x + y * 96)) = (bm(o1 := v)) (nat (x + y * 96))" by blast
      then show ?thesis using True v by (simp add: o1_def atlas_consts)
    next
      case False
      with a IH(3) show ?thesis by simp
    qed
  qed
  ultimately show ?case by blast
qed

lemma row_loop_result:
  assumes "0 \<le> y" "w \<le> 32" "h \<le> 32"
  shows "\<exists>bm' ws'. row_loop gb w h y (bm, ws) = Inr (bm', ws')
           \<and> set ws' = set ws \<union> {(x', y'). y \<le> y' \<and> y' < h \<and> 4 \<le> x' \<and> x' < w * 3 - 1}
           \<and> (\<forall>off. (\<forall>x' y'. y \<le> y' \<and> y' < h \<and> 4 \<le> x' \<and> x' < w * 3 - 1
                                \<longrightarrow> off \<noteq> nat (x' + y' * 96))
                 \<longrightarrow> bm' off = bm off)
           \<and> (\<forall>x' y'. y \<le> y' \<and> y' < h \<and> 4 \<le> x' \<and> x' < w * 3 - 1 \<longrightarrow>
                 bm' (nat (x' + y' * 96)) = filtered_value gb (w * 3 - 1) x' y')"
  using assms(1)
proof (induction "nat (h - y)" arbitrary: y bm ws)
  case 0
  then have "\<not> y < h" by simp
  then show ?case by (subst row_loop.simps) auto
next
  case (Suc n)
  then have lt: "y < h" by simp
  have xe: "w * 3 - 1 \<le> 95" using assms(2) by simp
  from column_loop_result [OF _ xe Suc.prems lt assms(3), of 4 gb bm ws]
  obtain bm1 where
    c: "column_loop gb h (w * 3 - 1) y 4 (bm, ws)
          = Inr (bm1, ws @ map (\<lambda>x'. (x', y)) [4..w * 3 - 1 - 1])"
      "\<forall>off. (\<forall>x'. 4 \<le> x' \<and> x' < w * 3 - 1 \<longrightarrow> off \<noteq> nat (x' + y * 96)) \<longrightarrow> bm1 off = bm off"
      "\<forall>x'. 4 \<le> x' \<and> x' < w * 3 - 1 \<longrightarrow>
         bm1 (nat (x' + y * 96)) = filtered_value gb (w * 3 - 1) x' y"
    by auto
  have n: "n = nat (h - (y + 1))" using Suc.hyps(2) by simp
  have "0 \<le> y + 1" using Suc.prems by simp
  from Suc.hyps(1) [OF n this, of bm1 "ws @ map (\<lambda>x'. (x', y)) [4..w * 3 - 1 - 1]"]
  obtain bm' ws' where
    IH: "row_loop gb w h (y + 1) (bm1, ws @ map (\<lambda>x'. (x', y)) [4..w * 3 - 1 - 1]) = Inr (bm', ws')"
      "set ws' = set (ws @ map (\<lambda>x'. (x', y)) [4..w * 3 - 1 - 1])
         \<union> {(x', y'). y + 1 \<le> y' \<and> y' < h \<and> 4 \<le> x' \<and> x' < w * 3 - 1}"
      "\<forall>off. (\<forall>x' y'. y + 1 \<le> y' \<and> y' < h \<and> 4 \<le> x' \<and> x' < w * 3 - 1
                   \<longrightarrow> off \<noteq> nat (x' + y' * 96)) \<longrightarrow> bm' off = bm1 off"
      "\<forall>x' y'. y + 1 \<le> y' \<and> y' < h \<and> 4 \<le> x' \<and> x' < w * 3 - 1 \<longrightarrow>
         bm' (nat (x' + y' * 96)) = filtered_value gb (w * 3 - 1) x' y'"
    by blast
  have r: "row_loop gb w h y (bm, ws) = Inr (bm', ws')"
    using lt c(1) IH(1) by (subst row_loop.simps) (simp add: Let_def horizontal_resolution_def)
  have s: "set ws' = set ws \<union> {(x', y'). y \<le> y' \<and> y' < h \<and> 4 \<le> x' \<and> x' < w * 3 - 1}"
  proof -
    have "{(x', y'). y \<le> y' \<and> y' < h \<and> 4 \<le> x' \<and> x' < w * 3 - 1}
        = (\<lambda>x'. (x', y)) ` {4..w * 3 - 1 - 1}
          \<union> {(x', y'). y + 1 \<le> y' \<and> y' < h \<and> 4 \<le> x' \<and> x' < w * 3 - 1}"
      using lt by (auto simp: image_iff) 
    then show ?thesis using IH(2) by (simp add: Un_assoc)
  qed
  have z: "\<forall>off. (\<forall>x' y'. y \<le> y' \<and> y' < h \<and> 4 \<le> x' \<and> x' < w * 3 - 1
                   \<longrightarrow> off \<noteq> nat (x' + y' * 96)) \<longrightarrow> bm' off = bm off"
  proof (intro allI impI)
    fix off
    assume a: "\<forall>x' y'. y \<le> y' \<and> y' < h \<and> 4 \<le> x' \<and> x' < w * 3 - 1 \<longrightarrow> off \<noteq> nat (x' + y' * 96)"
    then have "\<forall>x' y'. y + 1 \<le> y' \<and> y' < h \<and> 4 \<le> x' \<and> x' < w * 3 - 1 \<longrightarrow> off \<noteq> nat (x' + y' * 96)"
      by auto
    with IH(3) have "bm' off = bm1 off" by blast
    moreover from a lt have "\<forall>x'. 4 \<le> x' \<and> x' < w * 3 - 1 \<longrightarrow> off \<noteq> nat (x' + y * 96)" by auto
    with c(2) have "bm1 off = bm off" by blast
    ultimately show "bm' off = bm off" by simp
  qed
  have vals: "\<forall>x' y'. y \<le> y' \<and> y' < h \<and> 4 \<le> x' \<and> x' < w * 3 - 1 \<longrightarrow>
      bm' (nat (x' + y' * 96)) = filtered_value gb (w * 3 - 1) x' y'"
  proof (intro allI impI)
    fix x' y'
    assume a: "y \<le> y' \<and> y' < h \<and> 4 \<le> x' \<and> x' < w * 3 - 1"
    show "bm' (nat (x' + y' * 96)) = filtered_value gb (w * 3 - 1) x' y'"
    proof (cases "y' = y")
      case True
      have "\<forall>x'' y''. y + 1 \<le> y'' \<and> y'' < h \<and> 4 \<le> x'' \<and> x'' < w * 3 - 1
              \<longrightarrow> nat (x' + y * 96) \<noteq> nat (x'' + y'' * 96)"
        using a xe Suc.prems by auto
      with IH(3) have "bm' (nat (x' + y * 96)) = bm1 (nat (x' + y * 96))" by blast
      with c(3) a True show ?thesis by simp
    next
      case False
      with a IH(4) show ?thesis by simp
    qed
  qed
  from r s z vals show ?case by blast
qed

lemma lcd_filter_result:
  assumes "w \<le> 32" "h \<le> 32"
  shows "\<exists>bm ws. lcd_filter gb w h = Inr (bm, ws)
           \<and> set ws = {(x, y). 0 \<le> y \<and> y < h \<and> 4 \<le> x \<and> x < w * 3 - 1}
           \<and> (\<forall>x y. 0 \<le> x \<and> x < 96 \<and> 0 \<le> y \<and> (x, y) \<notin> set ws \<longrightarrow> bm (nat (x + y * 96)) = 0)
           \<and> (\<forall>x y. (x, y) \<in> set ws \<longrightarrow>
                 bm (nat (x + y * 96)) = filtered_value gb (w * 3 - 1) x y)"
proof -
  from row_loop_result [OF _ assms, of 0 gb "\<lambda>offset. 0" "[]"]
  obtain bm ws where
    r: "row_loop gb w h 0 (\<lambda>offset. 0, []) = Inr (bm, ws)"
      "set ws = {(x', y'). 0 \<le> y' \<and> y' < h \<and> 4 \<le> x' \<and> x' < w * 3 - 1}"
      "\<forall>off. (\<forall>x' y'. 0 \<le> y' \<and> y' < h \<and> 4 \<le> x' \<and> x' < w * 3 - 1
                   \<longrightarrow> off \<noteq> nat (x' + y' * 96)) \<longrightarrow> bm off = 0"
      "\<forall>x' y'. 0 \<le> y' \<and> y' < h \<and> 4 \<le> x' \<and> x' < w * 3 - 1 \<longrightarrow>
         bm (nat (x' + y' * 96)) = filtered_value gb (w * 3 - 1) x' y'"
    by auto
  have "bm (nat (x + y * 96)) = 0" if a: "0 \<le> x" "x < 96" "0 \<le> y" "(x, y) \<notin> set ws" for x y
  proof -
    have "nat (x + y * 96) \<noteq> nat (x' + y' * 96)"
      if b: "0 \<le> y'" "y' < h" "4 \<le> x'" "x' < w * 3 - 1" for x' y'
    proof
      assume e: "nat (x + y * 96) = nat (x' + y' * 96)"
      have "x' < 96" using b assms by simp
      from e a b have e': "x + y * 96 = x' + y' * 96" by simp
      have "(x + y * 96) mod 96 = x" "(x' + y' * 96) mod 96 = x'"
        using a b \<open>x' < 96\<close> by simp_all
      with e' have "x = x'" by simp
      with e' have "y = y'" by simp
      with \<open>x = x'\<close> a(4) b r(2) show False by simp
    qed
    with r(3) show ?thesis by blast
  qed
  moreover have "bm (nat (x + y * 96)) = filtered_value gb (w * 3 - 1) x y"
    if "(x, y) \<in> set ws" for x y
    using that r(2,4) by auto
  ultimately show ?thesis using r(1,2) by (auto simp: lcd_filter_def)
qed

section \<open>Properties of the cache miss\<close>

lemma rasterize_glyph_empty:
  assumes "stbtt_GetGlyphBitmapBox font (stbtt_FindGlyphIndex font cp) scale scale = (x0, y0, x1, y1)"
    and "\<not> (x1 - x0 > 0 \<and> y1 - y0 > 0)"
    and "unat cp < length (glyph_atlas_items s)"
  shows "rasterize_glyph ops font scale cp s =
     Inr (stored_item font scale cp,
          s\<lparr>calls := calls s @
               [Call_GetGlyphBitmapBox (stbtt_FindGlyphIndex font cp) scale scale],
            glyph_atlas_items :=
              (glyph_atlas_items s)[unat cp := stored_item font scale cp]\<rparr>)"
  using assms
  by (cases "x0 < x1"; cases "y0 < y1";
      simp add: rasterize_glyph_def stored_item_def sentinel_rect_def Let_def
        glyph_atlas_width_def glyph_atlas_height_def atlas_consts)

lemma rasterize_glyph_visible:
  assumes "stbtt_GetGlyphBitmapBox font (stbtt_FindGlyphIndex font cp) scale scale = (x0, y0, x1, y1)"
    and "x1 - x0 > 0" "y1 - y0 > 0"
    and "x1 - x0 + 3 \<le> 32" "y1 - y0 \<le> 32"
    and "unat cp < length (glyph_atlas_items s)"
  shows "\<exists>bm. rasterize_glyph ops font scale cp s =
     Inr (stored_item font scale cp,
          s\<lparr>calls := calls s @
               [Call_GetGlyphBitmapBox (stbtt_FindGlyphIndex font cp) scale scale,
                Call_MakeGlyphBitmap (stbtt_FindGlyphIndex font cp)
                  (f_mul_int ops 3 scale) scale,
                Call_TextureSubImage2D (sint ((cp mod 16) * 32)) (sint ((cp div 16) * 32))
                  32 32 bm],
            glyph_atlas_items :=
              (glyph_atlas_items s)[unat cp := stored_item font scale cp]\<rparr>)"
proof -
  let ?g = "stbtt_FindGlyphIndex font cp"
  let ?gb = "stbtt_MakeGlyphBitmap font (\<lambda>offset. 0) 6 96 32 96 (f_mul_int ops 3 scale) scale ?g"
  from lcd_filter_result [of "3 + (x1 - x0)" "y1 - y0" ?gb] assms(4,5)
  obtain bm ws where f: "lcd_filter ?gb (3 + (x1 - x0)) (y1 - y0) = Inr (bm, ws)" by auto
  show ?thesis
    using assms f
    by (intro exI [of _ bm])
       (simp add: rasterize_glyph_def stored_item_def Let_def glyph_atlas_width_def
          glyph_atlas_height_def atlas_consts)
qed

lemma rasterize_glyph_assert:
  assumes "stbtt_GetGlyphBitmapBox font (stbtt_FindGlyphIndex font cp) scale scale = (x0, y0, x1, y1)"
    and "x1 - x0 > 0" "y1 - y0 > 0"
    and "\<not> (x1 - x0 + 3 \<le> 32 \<and> y1 - y0 \<le> 32)"
  shows "rasterize_glyph ops font scale cp s = Inl Assertion_failed"
  using assms by (auto simp add: rasterize_glyph_def Let_def atlas_consts)

section \<open>Properties of the layout step\<close>

lemma layout_step_line_feed:
  "layout_step ops font P 0x0A s =
     Inr ((apply_kerning ops font P 0x0A s)
            \<lparr>current_x := pos_x P,
             current_y := f_add_round ops (current_y (apply_kerning ops font P 0x0A s))
                            (line_height P)\<rparr>)"
  by (simp add: layout_step_def Let_def)

lemma apply_kerning_fields:
  "prev_codepoint (apply_kerning ops font P cp s) = cp"
  "current_y (apply_kerning ops font P cp s) = current_y s"
  "glyph_atlas_items (apply_kerning ops font P cp s) = glyph_atlas_items s"
  "rect_buffer (apply_kerning ops font P cp s) = rect_buffer s"
  "calls (apply_kerning ops font P cp s) = calls s"
  by (simp_all add: apply_kerning_def Let_def)

lemma apply_kerning_x:
  "current_x (apply_kerning ops font P cp s) =
     (if prev_codepoint s \<noteq> 0 then
        f_add ops (current_x s)
          (f_mul_int ops (stbtt_GetCodepointKernAdvance font (prev_codepoint s) cp)
             (font_scale P))
      else current_x s)"
  by (simp add: apply_kerning_def Let_def)

subsection \<open>The atlas table: lookups, filled entries and the invariant\<close>

lemma rasterize_glyph_Inr:
  assumes "rasterize_glyph ops font scale cp s = Inr (item, s')"
  shows "item = stored_item font scale cp
     \<and> unat cp < length (glyph_atlas_items s)
     \<and> glyph_atlas_items s' = (glyph_atlas_items s)[unat cp := item]
     \<and> rect_buffer s' = rect_buffer s \<and> current_x s' = current_x s
     \<and> current_y s' = current_y s \<and> prev_codepoint s' = prev_codepoint s"
proof -
  obtain x0 y0 x1 y1 where
    box: "stbtt_GetGlyphBitmapBox font (stbtt_FindGlyphIndex font cp) scale scale = (x0, y0, x1, y1)"
    by (cases "stbtt_GetGlyphBitmapBox font (stbtt_FindGlyphIndex font cp) scale scale") auto
  have len: "unat cp < length (glyph_atlas_items s)"
    using assms box
    by (auto simp: rasterize_glyph_def Let_def split: if_splits sum.splits prod.splits)
  show ?thesis
  proof (cases "x1 - x0 > 0 \<and> y1 - y0 > 0")
    case False
    from rasterize_glyph_empty [OF box False len, of ops] assms len show ?thesis by auto
  next
    case True
    show ?thesis
    proof (cases "x1 - x0 + 3 \<le> 32 \<and> y1 - y0 \<le> 32")
      case False
      with rasterize_glyph_assert [OF box _ _ False, of ops s] True assms show ?thesis by simp
    next
      case fits: True
      from rasterize_glyph_visible [OF box _ _ _ _ len, of ops] True fits assms len
      show ?thesis by auto
    qed
  qed
qed


lemma stored_item_filled: "filled (stored_item font scale cp)"
  by (simp add: stored_item_def Let_def split: prod.splits)

lemma atlas_item_for_Inr:
  assumes "atlas_item_for ops font scale cp s = Inr (item, s')"
  shows "unat cp < length (glyph_atlas_items s) \<and> cp \<le> 127 \<and> filled item
     \<and> glyph_atlas_items s' = (glyph_atlas_items s)[unat cp := item]
     \<and> rect_buffer s' = rect_buffer s \<and> current_x s' = current_x s
     \<and> current_y s' = current_y s \<and> prev_codepoint s' = prev_codepoint s
     \<and> (filled (glyph_atlas_items s ! unat cp) \<longrightarrow> s' = s \<and> item = glyph_atlas_items s ! unat cp)
     \<and> (\<not> filled (glyph_atlas_items s ! unat cp) \<longrightarrow> item = stored_item font scale cp)"
proof -
  from assms have a: "cp \<le> 127" "unat cp < length (glyph_atlas_items s)"
    by (auto simp: atlas_item_for_def split: if_splits)
  show ?thesis
  proof (cases "filled (glyph_atlas_items s ! unat cp)")
    case True
    with assms a show ?thesis by (auto simp: atlas_item_for_def Let_def)
  next
    case False
    with assms a have "rasterize_glyph ops font scale cp s = Inr (item, s')"
      by (simp add: atlas_item_for_def Let_def)
    from rasterize_glyph_Inr [OF this] a False show ?thesis
      by (simp add: stored_item_filled)
  qed
qed

lemma atlas_item_for_again:
  assumes "atlas_item_for ops font scale cp s = Inr (item, s1)"
  shows "atlas_item_for ops font scale cp s1 = Inr (item, s1)"
proof -
  from atlas_item_for_Inr [OF assms]
  have a: "unat cp < length (glyph_atlas_items s)" "cp \<le> 127" "filled item"
    "glyph_atlas_items s1 = (glyph_atlas_items s)[unat cp := item]"
    by simp_all
  then show ?thesis by (simp add: atlas_item_for_def Let_def)
qed

lemma atlas_item_for_keeps_filled:
  assumes "atlas_item_for ops font scale cp s = Inr (item, s1)"
    and "i < length (glyph_atlas_items s)" "filled (glyph_atlas_items s ! i)"
  shows "glyph_atlas_items s1 ! i = glyph_atlas_items s ! i"
proof -
  note a = atlas_item_for_Inr [OF assms(1)]
  show ?thesis
  proof (cases "i = unat cp")
    case True
    with a assms(3) show ?thesis by simp
  next
    case False
    with a show ?thesis by simp
  qed
qed

lemma layout_step_Inr:
  assumes "layout_step ops font P cp s = Inr s'" and "cp \<noteq> 0x0A"
  shows "\<exists>item s1. atlas_item_for ops font (font_scale P) cp (apply_kerning ops font P cp s)
                      = Inr (item, s1)
           \<and> glyph_atlas_items s' = glyph_atlas_items s1 \<and> calls s' = calls s1"
  using assms
  by (auto simp: layout_step_def Let_def split: sum.splits prod.splits if_splits)

lemma layout_step_keeps_filled:
  assumes "layout_step ops font P cp s = Inr s'"
    and "i < length (glyph_atlas_items s)" "filled (glyph_atlas_items s ! i)"
  shows "glyph_atlas_items s' ! i = glyph_atlas_items s ! i"
proof (cases "cp = 0x0A")
  case True
  with assms(1) show ?thesis by (auto simp: layout_step_line_feed apply_kerning_fields)
next
  case False
  from layout_step_Inr [OF assms(1) False] obtain item s1 where
    a: "atlas_item_for ops font (font_scale P) cp (apply_kerning ops font P cp s) = Inr (item, s1)"
      "glyph_atlas_items s' = glyph_atlas_items s1"
    by blast
  from atlas_item_for_keeps_filled [OF a(1), of i] assms(2,3) a(2)
  show ?thesis by (simp add: apply_kerning_fields)
qed



lemma atlas_consistent_initial: "atlas_consistent font scale (initial_state x y)"
  by (simp add: atlas_consistent_def initial_state_def empty_item_def)

lemma atlas_consistent_entry:
  assumes "atlas_consistent font scale s" and "unat cp < length (glyph_atlas_items s)"
    and "filled (glyph_atlas_items s ! unat cp)"
  shows "glyph_atlas_items s ! unat cp = stored_item font scale cp"
proof -
  have "glyph_atlas_items s ! unat cp = stored_item font scale (word_of_nat (unat cp))"
    using assms unfolding atlas_consistent_def by blast
  then show ?thesis by simp
qed

lemma atlas_consistent_lookup:
  assumes "atlas_item_for ops font scale cp s = Inr (item, s1)"
    and "atlas_consistent font scale s"
  shows "item = stored_item font scale cp \<and> atlas_consistent font scale s1"
proof -
  note a = atlas_item_for_Inr [OF assms(1)]
  have w: "word_of_nat (unat cp) = cp" by simp
  have item: "item = stored_item font scale cp"
  proof (cases "filled (glyph_atlas_items s ! unat cp)")
    case True
    with a have "item = glyph_atlas_items s ! unat cp" by simp
    moreover from assms(2) a True
    have "glyph_atlas_items s ! unat cp = stored_item font scale cp"
      by (intro atlas_consistent_entry) simp_all
    ultimately show ?thesis by simp
  next
    case False
    with a show ?thesis by simp
  qed
  have "glyph_atlas_items s1 ! i = stored_item font scale (word_of_nat i)"
    if "i < length (glyph_atlas_items s1)" "filled (glyph_atlas_items s1 ! i)" for i
  proof (cases "i = unat cp")
    case True
    with a item that show ?thesis by simp
  next
    case False
    with a that assms(2) show ?thesis by (simp add: atlas_consistent_def)
  qed
  moreover have "length (glyph_atlas_items s1) = glyph_atlas_capacity"
    using a assms(2) by (simp add: atlas_consistent_def)
  ultimately show ?thesis using item by (simp add: atlas_consistent_def)
qed

lemma apply_kerning_consistent:
  "atlas_consistent font scale (apply_kerning ops font P cp s) = atlas_consistent font scale s"
  by (simp add: atlas_consistent_def apply_kerning_fields)

lemma layout_step_consistent:
  assumes "layout_step ops font P cp s = Inr s'"
    and "atlas_consistent font (font_scale P) s"
  shows "atlas_consistent font (font_scale P) s'"
proof (cases "cp = 0x0A")
  case True
  with assms show ?thesis
    by (auto simp: layout_step_line_feed atlas_consistent_def apply_kerning_fields)
next
  case False
  from layout_step_Inr [OF assms(1) False] obtain item s1 where
    a: "atlas_item_for ops font (font_scale P) cp (apply_kerning ops font P cp s) = Inr (item, s1)"
      "glyph_atlas_items s' = glyph_atlas_items s1"
    by blast
  from atlas_consistent_lookup [OF a(1)] assms(2)
  have "atlas_consistent font (font_scale P) s1" by (simp add: apply_kerning_consistent)
  with a(2) show ?thesis by (simp add: atlas_consistent_def)
qed

lemma stored_item_empty:
  assumes "stbtt_GetGlyphBitmapBox font (stbtt_FindGlyphIndex font cp) scale scale = (x0, y0, x1, y1)"
    and "\<not> (x1 - x0 > 0 \<and> y1 - y0 > 0)"
  shows "tex_coords (stored_item font scale cp) = sentinel_rect"
    and "glyph_index (stored_item font scale cp) = stbtt_FindGlyphIndex font cp"
  using assms by (cases "x0 < x1"; cases "y0 < y1"; simp add: stored_item_def Let_def)+

lemma atlas_item_for_empty:
  assumes "atlas_consistent font scale s"
    and "unat cp < glyph_atlas_capacity"
    and "stbtt_GetGlyphBitmapBox font (stbtt_FindGlyphIndex font cp) scale scale = (x0, y0, x1, y1)"
    and "\<not> (x1 - x0 > 0 \<and> y1 - y0 > 0)"
  shows "\<exists>s1. atlas_item_for ops font scale cp s = Inr (stored_item font scale cp, s1)
     \<and> glyph_atlas_items s1 = (glyph_atlas_items s)[unat cp := stored_item font scale cp]
     \<and> (calls s1 = calls s
         \<or> calls s1 = calls s @
              [Call_GetGlyphBitmapBox (stbtt_FindGlyphIndex font cp) scale scale])
     \<and> rect_buffer s1 = rect_buffer s \<and> current_x s1 = current_x s
     \<and> current_y s1 = current_y s \<and> prev_codepoint s1 = prev_codepoint s"
proof -
  from assms(1,2) have len: "unat cp < length (glyph_atlas_items s)"
    by (simp add: atlas_consistent_def)
  from assms(2) have "unat cp \<le> 127" by (simp add: glyph_atlas_capacity_def)
  then have le: "cp \<le> 127" by (simp add: word_le_nat_alt)
  have w: "word_of_nat (unat cp) = cp" by simp
  show ?thesis
  proof (cases "filled (glyph_atlas_items s ! unat cp)")
    case True
    with assms(1) len
    have e: "glyph_atlas_items s ! unat cp = stored_item font scale cp"
      by (intro atlas_consistent_entry) simp_all
    then have "atlas_item_for ops font scale cp s = Inr (stored_item font scale cp, s)"
      using True le len by (simp add: atlas_item_for_def Let_def)
    moreover have "(glyph_atlas_items s)[unat cp := stored_item font scale cp] = glyph_atlas_items s"
      using e [symmetric] by (simp add: list_update_same_conv len)
    ultimately show ?thesis by simp
  next
    case False
    then have "atlas_item_for ops font scale cp s = rasterize_glyph ops font scale cp s"
      using le len by (simp add: atlas_item_for_def Let_def)
    with rasterize_glyph_empty [OF assms(3,4) len, of ops] show ?thesis by simp
  qed
qed

lemma empty_glyph_step_exists:
  assumes "atlas_consistent font (font_scale P) s"
    and "cp \<noteq> 0x0A" and "unat cp < glyph_atlas_capacity"
    and "stbtt_GetGlyphBitmapBox font (stbtt_FindGlyphIndex font cp) (font_scale P) (font_scale P)
           = (x0, y0, x1, y1)"
    and "x1 - x0 = 0 \<or> y1 - y0 = 0"
  shows "\<exists>s'. layout_step ops font P cp s = Inr s'"
proof -
  let ?s0 = "apply_kerning ops font P cp s"
  from assms(5) have empty: "\<not> (x1 - x0 > 0 \<and> y1 - y0 > 0)" by auto
  have c0: "atlas_consistent font (font_scale P) ?s0"
    using assms(1) by (simp add: apply_kerning_consistent)
  from atlas_item_for_empty [OF c0 assms(3,4) empty, of ops] obtain s1 where
    l: "atlas_item_for ops font (font_scale P) cp ?s0
          = Inr (stored_item font (font_scale P) cp, s1)"
    by blast
  note e = stored_item_empty [OF assms(4) empty]
  have sent: "sint (rect_left sentinel_rect) = - 1" by (simp add: sentinel_rect_def)
  show ?thesis
    using assms(2) l e sent
    by (simp add: layout_step_def Let_def split: prod.splits)
qed

lemma demo_rasterize_A:
  "\<exists>bm. rasterize_glyph demo_ops demo_font 1 0x41 (initial_state 0 0) =
     Inr (stored_item demo_font 1 0x41,
          (initial_state 0 0)\<lparr>calls := calls (initial_state 0 0) @
               [Call_GetGlyphBitmapBox (stbtt_FindGlyphIndex demo_font 0x41) 1 1,
                Call_MakeGlyphBitmap (stbtt_FindGlyphIndex demo_font 0x41)
                  (f_mul_int demo_ops 3 1) 1,
                Call_TextureSubImage2D (sint ((0x41 mod 16) * 32 :: 32 word))
                  (sint ((0x41 div 16) * 32 :: 32 word)) 32 32 bm],
            glyph_atlas_items :=
              (glyph_atlas_items (initial_state 0 0 :: int draw_state))[unat (0x41 :: 32 word) :=
                 stored_item demo_font 1 0x41]\<rparr>)"
proof -
  have b: "stbtt_GetGlyphBitmapBox demo_font (stbtt_FindGlyphIndex demo_font 0x41) 1 1
             = (0, - 1, 1, 0)"
    by (simp add: demo_font_def)
  have l: "unat (0x41 :: 32 word) < length (glyph_atlas_items (initial_state 0 0 :: int draw_state))"
    by (simp add: initial_state_def glyph_atlas_capacity_def)
  show ?thesis
    by (rule rasterize_glyph_visible [OF b _ _ _ _ l]) simp_all
qed

section \<open>Claims about the atlas, the filter and the layout\<close>

text \<open>
  Claim C6, as amended. For a padded glyph that fits its atlas cell (the assertion of
  line 595), the filter loop returns, and the destinations it writes are exactly the
  subpixel columns \<open>x\<close> of the half-open range from 4 to \<open>padded_width * 3 - 1\<close> in each of
  the rows below \<open>padded_height\<close>: the loop runs while \<open>x < x_end\<close> with
  \<open>x_end = padded_width * 3 - 1\<close>, so only the last subpixel column is skipped. Every other
  position of the destination bitmap is left zero, and every destination written holds
  the filtered value of its column and row.
\<close>

theorem lcd_filter_columns:
  assumes "padded_glyph_width_px \<le> 32" and "padded_glyph_height_px \<le> 32"
  shows "\<exists>atlas_item_bitmap written.
           lcd_filter glyph_bitmap padded_glyph_width_px padded_glyph_height_px
             = Inr (atlas_item_bitmap, written)
           \<and> set written =
               {(x, y). 0 \<le> y \<and> y < padded_glyph_height_px
                        \<and> 4 \<le> x \<and> x < padded_glyph_width_px * 3 - 1}
           \<and> (\<forall>x y. 0 \<le> x \<and> x < 96 \<and> 0 \<le> y \<and> (x, y) \<notin> set written
                  \<longrightarrow> atlas_item_bitmap (nat (x + y * 96)) = 0)
           \<and> (\<forall>x y. (x, y) \<in> set written \<longrightarrow>
                 atlas_item_bitmap (nat (x + y * 96))
                   = filtered_value glyph_bitmap (padded_glyph_width_px * 3 - 1) x y)"
  using assms by (rule lcd_filter_result)

theorem lcd_filter_columns_witness:
  "(4 :: int) \<le> 32 \<and> (1 :: int) \<le> 32
   \<and> (\<exists>atlas_item_bitmap written.
         lcd_filter (\<lambda>i. if i = 8 then 255 else 0) 4 1 = Inr (atlas_item_bitmap, written)
         \<and> (10, 0) \<in> set written \<and> (11, 0) \<notin> set written
         \<and> atlas_item_bitmap 11 = 0)"
proof -
  from lcd_filter_columns [of 4 1 "\<lambda>i. if i = 8 then 255 else 0"]
  obtain bm ws where
    r: "lcd_filter (\<lambda>i. if i = 8 then 255 else 0) 4 1 = Inr (bm, ws)"
      "set ws = {(x, y). 0 \<le> y \<and> y < 1 \<and> 4 \<le> x \<and> x < 4 * 3 - (1 :: int)}"
      "\<forall>x y. 0 \<le> x \<and> x < 96 \<and> 0 \<le> y \<and> (x, y) \<notin> set ws \<longrightarrow> bm (nat (x + y * 96)) = 0"
    by auto
  from r(2) have m: "(10, 0) \<in> set ws" "(11, 0) \<notin> set ws" by auto
  from r(3) [rule_format, of 11 0] m(2) have "bm (nat (11 + 0 * 96)) = 0" by simp
  then have "bm 11 = 0" by simp
  with r(1) m show ?thesis by auto
qed

text \<open>
  Claim C6 as first stated fails: for a padded width of 4 the column
  \<open>10 = 4 * 3 - 2\<close> lies outside the claimed range, yet the filter writes it, and with
  full coverage in source column 8 it holds the value 8.
\<close>

theorem lcd_filter_last_column_written:
  "\<exists>atlas_item_bitmap written.
      lcd_filter (\<lambda>i. if i = 8 then 255 else 0) 4 1 = Inr (atlas_item_bitmap, written)
      \<and> (10, 0) \<in> set written \<and> atlas_item_bitmap (nat (10 + 0 * 96)) = 8
      \<and> \<not> (10 :: int) < 4 * 3 - 2"
  by (simp add: lcd_filter_def row_loop.simps column_loop.simps kernel_loop.simps
      atlas_consts filter_weights_def Let_def)

text \<open>
  Claim C2, which the code does not meet. The codepoint 127 passes
  \<open>assert(codepoint <= 127)\<close>, but the table \<open>glyph_atlas_items\<close> has 127 entries, with the
  indices 0 to 126, so the read of entry 127 is out of bounds.
\<close>

theorem atlas_index_127_out_of_bounds:
  "(127 :: 32 word) \<le> 127
   \<and> length (glyph_atlas_items (initial_state x y)) = 127
   \<and> atlas_item_for ops font scale 127 (initial_state x y) = Inl Index_out_of_bounds"
  by (simp add: atlas_item_for_def initial_state_def glyph_atlas_capacity_def)

text \<open>
  Claim C1, as amended. The layout loop assigns the current codepoint to
  \<open>prev_codepoint\<close> before it tests for the line feed, so after a line feed has been
  processed the stored previous codepoint is the line feed, the pen is at the left
  margin, and the kerning adjustment of the next codepoint is the one of the pair
  (line feed, next codepoint).
\<close>

theorem line_feed_becomes_prev_codepoint:
  "\<exists>s'. layout_step ops font P 0x0A s = Inr s'
      \<and> prev_codepoint s' = 0x0A
      \<and> current_x s' = pos_x P
      \<and> current_x (apply_kerning ops font P cp s') =
          f_add ops (pos_x P)
            (f_mul_int ops (stbtt_GetCodepointKernAdvance font 0x0A cp) (font_scale P))"
  by (simp add: layout_step_line_feed apply_kerning_fields apply_kerning_x)

theorem line_feed_becomes_prev_codepoint_witness:
  "\<exists>s'. layout_step demo_ops demo_font
           \<lparr>font_scale = 1, pos_x = 10, line_height = 16,
            text_color = \<lparr>color_r = 218, color_g = 218, color_b = 218, color_a = 255\<rparr>\<rparr>
           0x0A ((initial_state 17 22)\<lparr>prev_codepoint := 0x41\<rparr>) = Inr s'
      \<and> prev_codepoint s' = 0x0A \<and> current_x s' = 10"
  using line_feed_becomes_prev_codepoint [of demo_ops demo_font
      "\<lparr>font_scale = 1, pos_x = 10, line_height = 16,
            text_color = \<lparr>color_r = 218, color_g = 218, color_b = 218, color_a = 255\<rparr>\<rparr>"
      "(initial_state 17 22)\<lparr>prev_codepoint := 0x41\<rparr>" "0x42"]
  by auto

text \<open>
  Claim C1 as first stated fails: with \<open>A\<close> as the previous codepoint, processing a line
  feed leaves a previous codepoint other than \<open>A\<close>.
\<close>

theorem line_feed_overwrites_prev_codepoint:
  "\<exists>s'. layout_step demo_ops demo_font
           \<lparr>font_scale = 1, pos_x = 10, line_height = 16,
            text_color = \<lparr>color_r = 218, color_g = 218, color_b = 218, color_a = 255\<rparr>\<rparr>
           0x0A ((initial_state 17 22)\<lparr>prev_codepoint := 0x41\<rparr>) = Inr s'
      \<and> prev_codepoint ((initial_state 17 22 :: int draw_state)\<lparr>prev_codepoint := 0x41\<rparr>) = 0x41
      \<and> prev_codepoint s' \<noteq> 0x41"
  by (simp add: layout_step_line_feed apply_kerning_fields)

text \<open>
  Claim C5, as amended. On a cache miss the bounding box of the glyph is queried once,
  with the horizontal and the vertical scale both equal to the font scale, so
  \<open>glyph_width_px\<close> is the width in whole pixels and the atlas item is that width plus the
  three padding columns wide; only the rasterization that follows is made at three
  times the font scale horizontally. A glyph without visual representation causes the
  bounding box query alone.
\<close>

theorem bitmap_box_at_font_scale:
  assumes "rasterize_glyph ops font scale cp s = Inr (item, s')"
    and "stbtt_GetGlyphBitmapBox font (stbtt_FindGlyphIndex font cp) scale scale = (x0, y0, x1, y1)"
  shows "if x1 - x0 > 0 \<and> y1 - y0 > 0 then
           (\<exists>bm. calls s' = calls s @
              [Call_GetGlyphBitmapBox (stbtt_FindGlyphIndex font cp) scale scale,
               Call_MakeGlyphBitmap (stbtt_FindGlyphIndex font cp) (f_mul_int ops 3 scale) scale,
               Call_TextureSubImage2D (sint ((cp mod 16) * 32)) (sint ((cp div 16) * 32))
                 32 32 bm])
           \<and> tex_coords item =
               \<lparr>rect_left = word_of_int (sint ((cp mod 16) * 32)),
                rect_top = word_of_int (sint ((cp div 16) * 32)),
                rect_right = word_of_int (sint ((cp mod 16) * 32) + (1 + 1 + (x1 - x0) + 1)),
                rect_bottom = word_of_int (sint ((cp div 16) * 32) + (y1 - y0))\<rparr>
         else
           calls s' = calls s @
             [Call_GetGlyphBitmapBox (stbtt_FindGlyphIndex font cp) scale scale]
           \<and> tex_coords item = sentinel_rect"
proof -
  from rasterize_glyph_Inr [OF assms(1)]
  have len: "unat cp < length (glyph_atlas_items s)" and item: "item = stored_item font scale cp"
    by simp_all
  show ?thesis
  proof (cases "x1 - x0 > 0 \<and> y1 - y0 > 0")
    case False
    from rasterize_glyph_empty [OF assms(2) False len, of ops] assms(1)
    have "calls s' = calls s @
        [Call_GetGlyphBitmapBox (stbtt_FindGlyphIndex font cp) scale scale]"
      by auto
    with False item stored_item_empty(1) [OF assms(2) False] show ?thesis by simp
  next
    case True
    have fits: "x1 - x0 + 3 \<le> 32 \<and> y1 - y0 \<le> 32"
    proof (rule ccontr)
      assume n: "\<not> (x1 - x0 + 3 \<le> 32 \<and> y1 - y0 \<le> 32)"
      from rasterize_glyph_assert [OF assms(2) _ _ n, of ops s] True assms(1)
      show False by simp
    qed
    from rasterize_glyph_visible [OF assms(2) _ _ _ _ len, of ops] True fits assms(1)
    have "\<exists>bm. calls s' = calls s @
        [Call_GetGlyphBitmapBox (stbtt_FindGlyphIndex font cp) scale scale,
         Call_MakeGlyphBitmap (stbtt_FindGlyphIndex font cp) (f_mul_int ops 3 scale) scale,
         Call_TextureSubImage2D (sint ((cp mod 16) * 32)) (sint ((cp div 16) * 32)) 32 32 bm]"
      by auto
    moreover have "tex_coords item =
        \<lparr>rect_left = word_of_int (sint ((cp mod 16) * 32)),
         rect_top = word_of_int (sint ((cp div 16) * 32)),
         rect_right = word_of_int (sint ((cp mod 16) * 32) + (1 + 1 + (x1 - x0) + 1)),
         rect_bottom = word_of_int (sint ((cp div 16) * 32) + (y1 - y0))\<rparr>"
      using True item assms(2) by (simp add: stored_item_def Let_def)
    ultimately show ?thesis using True by simp
  qed
qed

theorem bitmap_box_at_font_scale_witness:
  "\<exists>item s'. rasterize_glyph demo_ops demo_font 1 0x41 (initial_state 0 0) = Inr (item, s')
      \<and> stbtt_GetGlyphBitmapBox demo_font (stbtt_FindGlyphIndex demo_font 0x41) 1 1 = (0, - 1, 1, 0)
      \<and> (\<exists>bm. calls s' =
            [Call_GetGlyphBitmapBox 0x41 1 1, Call_MakeGlyphBitmap 0x41 3 1,
             Call_TextureSubImage2D 32 128 32 32 bm])
      \<and> tex_coords item = \<lparr>rect_left = 32, rect_top = 128, rect_right = 36, rect_bottom = 129\<rparr>"
proof -
  from demo_rasterize_A obtain item s' where
    r: "rasterize_glyph demo_ops demo_font 1 0x41 (initial_state 0 0) = Inr (item, s')"
    by blast
  have b: "stbtt_GetGlyphBitmapBox demo_font (stbtt_FindGlyphIndex demo_font 0x41) 1 1
             = (0, - 1, 1, 0)"
    by (simp add: demo_font_def)
  from bitmap_box_at_font_scale [OF r b] r b show ?thesis
    by (auto simp: demo_font_def demo_ops_def initial_state_def)
qed

text \<open>
  Claim C5 as first stated fails: for a font whose glyph \<open>A\<close> is as wide as the horizontal
  scale, the miss at font scale 1 makes no bounding box query at scale 3, and the atlas
  item is 1 + 3 texels wide, from the box at scale 1, although the box at scale 3 is 3
  wide.
\<close>

theorem bitmap_box_not_tripled:
  "\<exists>item s'. rasterize_glyph demo_ops demo_font 1 0x41 (initial_state 0 0) = Inr (item, s')
      \<and> Call_GetGlyphBitmapBox 0x41 (f_mul_int demo_ops 3 1) 1 \<notin> set (calls s')
      \<and> Call_GetGlyphBitmapBox 0x41 1 1 \<in> set (calls s')
      \<and> stbtt_GetGlyphBitmapBox demo_font 0x41 (f_mul_int demo_ops 3 1) 1 = (0, - 1, 3, 0)
      \<and> sint (rect_right (tex_coords item)) - sint (rect_left (tex_coords item)) = 1 + 1 + 1 + 1"
proof -
  from demo_rasterize_A obtain bm where
    r: "rasterize_glyph demo_ops demo_font 1 0x41 (initial_state 0 0) =
     Inr (stored_item demo_font 1 0x41,
          (initial_state 0 0)\<lparr>calls := calls (initial_state 0 0) @
               [Call_GetGlyphBitmapBox (stbtt_FindGlyphIndex demo_font 0x41) 1 1,
                Call_MakeGlyphBitmap (stbtt_FindGlyphIndex demo_font 0x41)
                  (f_mul_int demo_ops 3 1) 1,
                Call_TextureSubImage2D (sint ((0x41 mod 16) * 32 :: 32 word))
                  (sint ((0x41 div 16) * 32 :: 32 word)) 32 32 bm],
            glyph_atlas_items :=
              (glyph_atlas_items (initial_state 0 0 :: int draw_state))[unat (0x41 :: 32 word) :=
                 stored_item demo_font 1 0x41]\<rparr>)"
    by blast
  show ?thesis
    unfolding r
    by (simp add: demo_font_def demo_ops_def initial_state_def stored_item_def Let_def)
qed

text \<open>
  Claim C8. A lookup of the atlas item of a codepoint that returns an entry leaves a
  state in which the same lookup returns the same entry and the same state: no call is
  added to the log, so nothing is rasterized or uploaded a second time. The entry
  returned is filled and it is the entry stored in the table. A lookup, and a whole
  layout step, leave every filled entry of the table as it was.
\<close>

theorem atlas_lookup_idempotent:
  "(atlas_item_for ops font scale cp s = Inr (item, s1) \<longrightarrow>
      atlas_item_for ops font scale cp s1 = Inr (item, s1)
      \<and> filled item \<and> glyph_atlas_items s1 ! unat cp = item
      \<and> (\<forall>i < length (glyph_atlas_items s). filled (glyph_atlas_items s ! i) \<longrightarrow>
            glyph_atlas_items s1 ! i = glyph_atlas_items s ! i))
   \<and> (layout_step ops font P c s = Inr s2 \<longrightarrow>
        (\<forall>i < length (glyph_atlas_items s). filled (glyph_atlas_items s ! i) \<longrightarrow>
            glyph_atlas_items s2 ! i = glyph_atlas_items s ! i))"
proof (intro conjI impI allI)
  assume a: "atlas_item_for ops font scale cp s = Inr (item, s1)"
  then show "atlas_item_for ops font scale cp s1 = Inr (item, s1)" by (rule atlas_item_for_again)
  from atlas_item_for_Inr [OF a] show "filled item" by simp
  from atlas_item_for_Inr [OF a] show "glyph_atlas_items s1 ! unat cp = item" by simp
next
  fix i
  assume "atlas_item_for ops font scale cp s = Inr (item, s1)"
    "i < length (glyph_atlas_items s)" "filled (glyph_atlas_items s ! i)"
  then show "glyph_atlas_items s1 ! i = glyph_atlas_items s ! i"
    by (rule atlas_item_for_keeps_filled)
next
  fix i
  assume "layout_step ops font P c s = Inr s2"
    "i < length (glyph_atlas_items s)" "filled (glyph_atlas_items s ! i)"
  then show "glyph_atlas_items s2 ! i = glyph_atlas_items s ! i"
    by (rule layout_step_keeps_filled)
qed

theorem atlas_lookup_idempotent_witness:
  "\<exists>item s1 s2.
      atlas_item_for demo_ops demo_font 1 0x41 (initial_state 0 0) = Inr (item, s1)
      \<and> atlas_item_for demo_ops demo_font 1 0x41 s1 = Inr (item, s1)
      \<and> filled item \<and> glyph_atlas_items s1 ! 65 = item
      \<and> layout_step demo_ops demo_font demo_params 0x20 s1 = Inr s2
      \<and> glyph_atlas_items s2 ! 65 = item"
proof -
  from demo_rasterize_A obtain item s1 where
    "rasterize_glyph demo_ops demo_font 1 0x41 (initial_state 0 0) = Inr (item, s1)"
    by blast
  then have first: "atlas_item_for demo_ops demo_font 1 0x41 (initial_state 0 0) = Inr (item, s1)"
    by (simp add: atlas_item_for_def initial_state_def glyph_atlas_capacity_def empty_item_def
        Let_def)
  have c1: "atlas_consistent demo_font (font_scale demo_params) s1"
    using atlas_consistent_lookup [OF first atlas_consistent_initial]
    by (simp add: demo_params_def)
  have "\<exists>s2. layout_step demo_ops demo_font demo_params 0x20 s1 = Inr s2"
    using empty_glyph_step_exists [of demo_font demo_params s1 "0x20" 0 0 0 0 demo_ops] c1
    by (simp add: demo_font_def demo_params_def glyph_atlas_capacity_def)
  then obtain s2 where step: "layout_step demo_ops demo_font demo_params 0x20 s1 = Inr s2" ..
  from atlas_lookup_idempotent [of demo_ops demo_font 1 "0x41" "initial_state 0 0" item s1]
    first
  have a: "atlas_item_for demo_ops demo_font 1 0x41 s1 = Inr (item, s1)" "filled item"
    "glyph_atlas_items s1 ! 65 = item"
    by simp_all
  have l: "65 < length (glyph_atlas_items s1)"
    using c1 by (simp add: atlas_consistent_def glyph_atlas_capacity_def)
  from atlas_lookup_idempotent [of demo_ops demo_font 1 "0x41" s1 item s1 demo_params "0x20" s2]
    step a l
  have "glyph_atlas_items s2 ! 65 = item" by auto
  with first a step show ?thesis by blast
qed

text \<open>
  Claim C9, as amended. In a state of the atlas table that the layout can reach, a
  codepoint other than the line feed whose value is an index of the table (0 to 126)
  and whose glyph bounding box has zero width or zero height is laid out as follows: the step returns, the entry of the codepoint is filled
  and carries the sentinel texture coordinates, the log of calls grows by the bounding
  box query at most (no rasterization and no upload), no rectangle is added to
  \<open>rect_buffer\<close>, and the pen has moved from its position after kerning by the
  advance width of the glyph times the font scale.
\<close>

theorem empty_glyph_step:
  assumes "atlas_consistent font (font_scale P) s"
    and "cp \<noteq> 0x0A" and "unat cp < glyph_atlas_capacity"
    and "stbtt_GetGlyphBitmapBox font (stbtt_FindGlyphIndex font cp) (font_scale P) (font_scale P)
           = (x0, y0, x1, y1)"
    and "x1 - x0 = 0 \<or> y1 - y0 = 0"
  shows "\<exists>s'. layout_step ops font P cp s = Inr s'
     \<and> filled (glyph_atlas_items s' ! unat cp)
     \<and> tex_coords (glyph_atlas_items s' ! unat cp) = sentinel_rect
     \<and> (calls s' = calls s
         \<or> calls s' = calls s @
              [Call_GetGlyphBitmapBox (stbtt_FindGlyphIndex font cp) (font_scale P) (font_scale P)])
     \<and> rect_buffer s' = rect_buffer s
     \<and> current_x s' =
          f_add ops (current_x (apply_kerning ops font P cp s))
            (f_mul_int ops (fst (stbtt_GetGlyphHMetrics font (stbtt_FindGlyphIndex font cp)))
               (font_scale P))
     \<and> atlas_consistent font (font_scale P) s'"
proof -
  let ?s0 = "apply_kerning ops font P cp s"
  let ?item = "stored_item font (font_scale P) cp"
  from assms(5) have empty: "\<not> (x1 - x0 > 0 \<and> y1 - y0 > 0)" by auto
  have c0: "atlas_consistent font (font_scale P) ?s0"
    using assms(1) by (simp add: apply_kerning_consistent)
  from atlas_item_for_empty [OF c0 assms(3,4) empty, of ops] obtain s1 where
    l: "atlas_item_for ops font (font_scale P) cp ?s0 = Inr (?item, s1)"
      "glyph_atlas_items s1 = (glyph_atlas_items ?s0)[unat cp := ?item]"
      "calls s1 = calls ?s0 \<or> calls s1 = calls ?s0 @
         [Call_GetGlyphBitmapBox (stbtt_FindGlyphIndex font cp) (font_scale P) (font_scale P)]"
      "rect_buffer s1 = rect_buffer ?s0" "current_x s1 = current_x ?s0"
    by blast
  note e = stored_item_empty [OF assms(4) empty]
  have sent: "sint (rect_left sentinel_rect) = - 1" by (simp add: sentinel_rect_def)
  define s' where
    "s' = s1\<lparr>current_x :=
             f_add ops (current_x s1)
               (f_mul_int ops (fst (stbtt_GetGlyphHMetrics font (stbtt_FindGlyphIndex font cp)))
                  (font_scale P))\<rparr>"
  have step: "layout_step ops font P cp s = Inr s'"
    using assms(2) l(1) e sent
    by (simp add: layout_step_def Let_def s'_def split: prod.splits)
  have len: "unat cp < length (glyph_atlas_items s)"
    using assms(1,3) by (simp add: atlas_consistent_def)
  have "glyph_atlas_items s' ! unat cp = ?item"
    using l(2) len by (simp add: s'_def apply_kerning_fields)
  moreover have "calls s' = calls s \<or> calls s' = calls s @
      [Call_GetGlyphBitmapBox (stbtt_FindGlyphIndex font cp) (font_scale P) (font_scale P)]"
    using l(3) by (simp add: s'_def apply_kerning_fields)
  moreover have "rect_buffer s' = rect_buffer s"
    using l(4) by (simp add: s'_def apply_kerning_fields)
  moreover have "current_x s' =
      f_add ops (current_x ?s0)
        (f_mul_int ops (fst (stbtt_GetGlyphHMetrics font (stbtt_FindGlyphIndex font cp)))
           (font_scale P))"
    using l(5) by (simp add: s'_def)
  moreover have "atlas_consistent font (font_scale P) s'"
    using step assms(1) by (rule layout_step_consistent)
  ultimately show ?thesis
    using step e(1) by (auto simp: stored_item_filled)
qed

theorem empty_glyph_step_witness:
  "atlas_consistent demo_font (font_scale demo_params) (initial_state 10 22)
   \<and> unat (0x20 :: 32 word) < glyph_atlas_capacity
   \<and> stbtt_GetGlyphBitmapBox demo_font (stbtt_FindGlyphIndex demo_font 0x20)
        (font_scale demo_params) (font_scale demo_params) = (0, 0, 0, 0)
   \<and> (\<exists>s'. layout_step demo_ops demo_font demo_params 0x20 (initial_state 10 22) = Inr s'
         \<and> filled (glyph_atlas_items s' ! 32)
         \<and> tex_coords (glyph_atlas_items s' ! 32) = sentinel_rect
         \<and> rect_buffer s' = []
         \<and> current_x s' = 17)"
proof -
  have c: "atlas_consistent demo_font (font_scale demo_params) (initial_state 10 22)"
    by (rule atlas_consistent_initial)
  have ne: "(0x20 :: 32 word) \<noteq> 0x0A" by simp
  have u: "unat (0x20 :: 32 word) < glyph_atlas_capacity" by (simp add: glyph_atlas_capacity_def)
  have b: "stbtt_GetGlyphBitmapBox demo_font (stbtt_FindGlyphIndex demo_font 0x20)
        (font_scale demo_params) (font_scale demo_params) = (0, 0, 0, 0)"
    by (simp add: demo_font_def demo_params_def)
  have z: "(0 :: int) - 0 = 0 \<or> (0 :: int) - 0 = 0" by simp
  from empty_glyph_step [OF c ne u b z, of demo_ops]
  show ?thesis
    using c u b
    by (auto simp: initial_state_def demo_ops_def demo_font_def demo_params_def
        apply_kerning_def Let_def)
qed

text \<open>
  Claim C9 as first stated fails: it speaks of every codepoint whose glyph bounding box
  is empty, and the loop body treats three kinds of codepoint otherwise, whatever their
  glyph is. In a font whose glyphs are all empty, the line feed takes the branch of
  line 553: no table entry is made, and the pen goes back to the left margin instead
  of advancing; a codepoint above 127 fails the assertion of line 561; and the
  codepoint 127 passes the assertion and is an index behind the last entry of the table.
\<close>

theorem empty_glyph_line_feed_no_entry:
  "stbtt_GetGlyphBitmapBox blank_font (stbtt_FindGlyphIndex blank_font 0x0A)
        (font_scale demo_params) (font_scale demo_params) = (0, 0, 0, 0)
   \<and> layout_step demo_ops blank_font demo_params 0x0A (initial_state 50 22)
        = Inr ((initial_state 50 22)\<lparr>current_x := 10, current_y := 38, prev_codepoint := 0x0A\<rparr>)
   \<and> \<not> filled (glyph_atlas_items
          ((initial_state 50 22 :: int draw_state)
             \<lparr>current_x := 10, current_y := 38, prev_codepoint := 0x0A\<rparr>) ! 10)
   \<and> (10 :: int) \<noteq> 50 + 7 * font_scale demo_params
   \<and> stbtt_GetGlyphBitmapBox blank_font (stbtt_FindGlyphIndex blank_font 0xA0)
        (font_scale demo_params) (font_scale demo_params) = (0, 0, 0, 0)
   \<and> layout_step demo_ops blank_font demo_params 0xA0 (initial_state 50 22)
        = Inl Assertion_failed
   \<and> stbtt_GetGlyphBitmapBox blank_font (stbtt_FindGlyphIndex blank_font 0x7F)
        (font_scale demo_params) (font_scale demo_params) = (0, 0, 0, 0)
   \<and> layout_step demo_ops blank_font demo_params 0x7F (initial_state 50 22)
        = Inl Index_out_of_bounds"
  by (simp add: layout_step_def apply_kerning_def atlas_item_for_def initial_state_def
      blank_font_def demo_ops_def demo_params_def glyph_atlas_capacity_def empty_item_def
      Let_def)

end
